theory Spec2Isabelle
  imports Main "HOL-Library.Multiset"
begin

section \<open>The event bus of \<^verbatim>\<open>src/services/EventBus.ts\<close>\<close>

text \<open>
  The class \<^verbatim>\<open>EventBus\<close> keeps a map from event names to arrays of subscriptions and one
  more array for the wildcard name \<^verbatim>\<open>'*'\<close>. Registration pushes onto the stored array
  and sorts it in place; removal builds a new array with \<^verbatim>\<open>filter\<close> and stores that one.
  Since \<^verbatim>\<open>emit\<close> walks the very array object it read from the map, the difference between
  the two is observable, and the model keeps arrays in an explicit store of references.
\<close>

subsection \<open>Values, subscriptions and the object store\<close>

text \<open>
  An \<^verbatim>\<open>EventHandler\<close> is compared by reference only (\<^verbatim>\<open>s.handler !== handler\<close>), so a
  handler is represented by the identity of its closure.
\<close>

type_synonym EventHandler = nat

text \<open>
  Priorities are integers, and the code compares them. With any other number the code
  does two things: it prints it (\<^verbatim>\<open>String(err)\<close>, a template literal)
  and it hands it to \<^verbatim>\<open>setTimeout\<close> as a delay. Both are the work of the runtime, so a number
  is represented by their results: what the runtime prints for it, and for how many
  milliseconds a timer set with it waits. This covers every number, whole or not, and
  \<^verbatim>\<open>NaN\<close>; for a whole number of milliseconds from 1 to \<open>2^31 - 1\<close> the first is its decimal
  notation and the second the number itself.
\<close>

record number =
  printed :: string
  millis :: nat

text \<open>
  The JavaScript values that travel as arguments or are thrown: the primitives, \<^verbatim>\<open>Error\<close>
  objects (\<open>JError m\<close> has message \<open>m\<close>), and all other objects. Of an object the code only
  ever asks for its conversion to a string, in the \<^verbatim>\<open>catch\<close> blocks of \<^verbatim>\<open>emit\<close>; \<open>JObject c\<close>
  is an object, not an \<^verbatim>\<open>Error\<close>, for which that conversion gives \<open>c\<close>: the string \<open>s\<close> when
  \<open>c = Inr s\<close>, and the exception \<open>v\<close> when \<open>c = Inl v\<close> (an object without a usable
  \<^verbatim>\<open>toString\<close>, such as \<^verbatim>\<open>Object.create(null)\<close>, makes \<^verbatim>\<open>String\<close> throw a \<^verbatim>\<open>TypeError\<close>).
\<close>

datatype jsval =
    JUndefined | JNull | JBool bool | JNum number | JStr string | JError string
  | JObject "jsval + string"

text \<open>
  The interface \<^verbatim>\<open>Subscription\<close>. Its field \<^verbatim>\<open>once\<close> is called \<open>is_once\<close>, since the
  name \<open>once\<close> belongs to the method.
\<close>

record Subscription =
  handler :: EventHandler
  priority :: int
  is_once :: bool

text \<open>
  The object: \<open>arrays\<close> maps a reference to the contents of the array it denotes,
  \<open>next_ref\<close> is the next unused reference; \<open>listeners\<close> and \<open>wildcardListeners\<close> are the
  two private fields, holding references.
\<close>

record EventBus =
  arrays :: "nat \<Rightarrow> Subscription list"
  next_ref :: nat
  listeners :: "string \<rightharpoonup> nat"
  wildcardListeners :: nat

text \<open>A new array object (an array literal, or the result of \<^verbatim>\<open>filter\<close>).\<close>

definition new_array :: "Subscription list \<Rightarrow> EventBus \<Rightarrow> nat \<times> EventBus" where
  "new_array xs b = (next_ref b, b\<lparr>arrays := (arrays b)(next_ref b := xs), next_ref := Suc (next_ref b)\<rparr>)"

text \<open>\<^verbatim>\<open>new EventBus()\<close>: an empty map and an empty wildcard array.\<close>

definition new_EventBus :: EventBus where
  "new_EventBus = \<lparr>arrays = (\<lambda>_. []), next_ref = 1, listeners = Map.empty, wildcardListeners = 0\<rparr>"

text \<open>
  \<^verbatim>\<open>subs.push(s); subs.sort((a, b) => b.priority - a.priority)\<close> on the array behind a
  reference, in place. \<^verbatim>\<open>Array.prototype.sort\<close> is stable, and a stable sort by a key is
  unique, so it is \<^const>\<open>sort_key\<close> with the negated priority as the key.
\<close>

definition push_sort :: "nat \<Rightarrow> Subscription \<Rightarrow> EventBus \<Rightarrow> EventBus" where
  "push_sort a s b = b\<lparr>arrays := (arrays b)(a := sort_key (\<lambda>x. - priority x) (arrays b a @ [s]))\<rparr>"

subsection \<open>Registry operations\<close>

text \<open>
  The calls a client (or a running handler) can make on the registry. \<^verbatim>\<open>on\<close> and
  \<^verbatim>\<open>once\<close> return the closure \<^verbatim>\<open>() => this.off(event, handler)\<close>, which is the call
  \<open>Off event handler\<close> waiting to be made.
\<close>

datatype call =
    On string EventHandler int
  | Once string EventHandler int
  | Off string EventHandler
  | RemoveAllListeners "string option"

definition on :: "string \<Rightarrow> EventHandler \<Rightarrow> int \<Rightarrow> EventBus \<Rightarrow> call \<times> EventBus" where
  "on event h p b =
     (if event = ''*'' then
        (Off ''*'' h, push_sort (wildcardListeners b) \<lparr>handler = h, priority = p, is_once = False\<rparr> b)
      else
        let b1 = (if listeners b event = None
                  then (let (a, b') = new_array [] b in b'\<lparr>listeners := (listeners b')(event \<mapsto> a)\<rparr>)
                  else b);
            subs = the (listeners b1 event)
        in (Off event h, push_sort subs \<lparr>handler = h, priority = p, is_once = False\<rparr> b1))"

definition once :: "string \<Rightarrow> EventHandler \<Rightarrow> int \<Rightarrow> EventBus \<Rightarrow> call \<times> EventBus" where
  "once event h p b =
     (if event = ''*'' then
        (Off ''*'' h, push_sort (wildcardListeners b) \<lparr>handler = h, priority = p, is_once = True\<rparr> b)
      else
        let b1 = (if listeners b event = None
                  then (let (a, b') = new_array [] b in b'\<lparr>listeners := (listeners b')(event \<mapsto> a)\<rparr>)
                  else b);
            subs = the (listeners b1 event)
        in (Off event h, push_sort subs \<lparr>handler = h, priority = p, is_once = True\<rparr> b1))"

definition off :: "string \<Rightarrow> EventHandler \<Rightarrow> EventBus \<Rightarrow> EventBus" where
  "off event h b =
     (if event = ''*'' then
        (let (a, b') = new_array (filter (\<lambda>s. handler s \<noteq> h) (arrays b (wildcardListeners b))) b
         in b'\<lparr>wildcardListeners := a\<rparr>)
      else
        (case listeners b event of
           None \<Rightarrow> b
         | Some subs \<Rightarrow>
             let (filtered, b') = new_array (filter (\<lambda>s. handler s \<noteq> h) (arrays b subs)) b in
             if length (arrays b' filtered) = 0
             then b'\<lparr>listeners := (listeners b')(event := None)\<rparr>
             else b'\<lparr>listeners := (listeners b')(event \<mapsto> filtered)\<rparr>))"

definition listenerCount :: "string \<Rightarrow> EventBus \<Rightarrow> nat" where
  "listenerCount event b =
     (if event = ''*'' then length (arrays b (wildcardListeners b))
      else length (case listeners b event of None \<Rightarrow> [] | Some subs \<Rightarrow> arrays b subs))"

text \<open>
  \<^verbatim>\<open>removeAllListeners(event?)\<close>: the middle test is the truthiness of \<^verbatim>\<open>event\<close>, so the
  empty string clears everything, as a missing argument does.
\<close>

definition removeAllListeners :: "string option \<Rightarrow> EventBus \<Rightarrow> EventBus" where
  "removeAllListeners event b =
     (if event = Some ''*'' then
        (let (a, b') = new_array [] b in b'\<lparr>wildcardListeners := a\<rparr>)
      else if event \<noteq> None \<and> event \<noteq> Some [] then
        b\<lparr>listeners := (listeners b)(the event := None)\<rparr>
      else
        (let (a, b') = new_array [] b in b'\<lparr>listeners := Map.empty, wildcardListeners := a\<rparr>))"

fun exec_call :: "call \<Rightarrow> EventBus \<Rightarrow> EventBus" where
  "exec_call (On event h p) b = snd (on event h p b)"
| "exec_call (Once event h p) b = snd (once event h p b)"
| "exec_call (Off event h) b = off event h b"
| "exec_call (RemoveAllListeners event) b = removeAllListeners event b"

fun exec_calls :: "call list \<Rightarrow> EventBus \<Rightarrow> EventBus" where
  "exec_calls [] b = b"
| "exec_calls (c # cs) b = exec_calls cs (exec_call c b)"

text \<open>The sequence registered under a name, as \<^verbatim>\<open>emit\<close> and \<^verbatim>\<open>listenerCount\<close> read it.\<close>

definition subs_of :: "EventBus \<Rightarrow> string \<Rightarrow> Subscription list" where
  "subs_of b event =
     (if event = ''*'' then arrays b (wildcardListeners b)
      else (case listeners b event of None \<Rightarrow> [] | Some subs \<Rightarrow> arrays b subs))"


subsection \<open>Dispatch\<close>

text \<open>
  What a handler does when it is called is not part of the class. A behaviour gives,
  for the handler called, its arguments, the state \<open>'w\<close> of everything outside the bus
  and the bus as the handler finds it: the calls made on the registry by the handler and
  by anything else that runs before the loop goes on, the value the handler throws or
  rejects with, if any, and the new outside state.
\<close>

type_synonym 'w behaviour =
  "EventHandler \<Rightarrow> jsval list \<Rightarrow> 'w \<Rightarrow> EventBus \<Rightarrow> call list \<times> jsval option \<times> 'w"

datatype pass = Specific | Wildcard

datatype invocation =
  Invoked (inv_pass: pass) (inv_handler: EventHandler) (inv_args: "jsval list") (inv_thrown: "jsval option")

text \<open>
  The state of one emission: the bus, the outside state, the local \<^verbatim>\<open>errors\<close>, and two
  records kept for the proofs only: \<open>trace\<close>, the handler invocations in the order they
  were made, and \<open>effects\<close>, the calls made on the registry meanwhile.
\<close>

record 'w run =
  bus :: EventBus
  world :: 'w
  errors :: "jsval list"
  trace :: "invocation list"
  effects :: "call list"

text \<open>
  \<^verbatim>\<open>String(err)\<close>: a string, or the exception that the conversion throws. (The code never
  applies it to an \<^verbatim>\<open>Error\<close>.)
\<close>

fun String_of :: "jsval \<Rightarrow> jsval + string" where
  "String_of JUndefined = Inr ''undefined''"
| "String_of JNull = Inr ''null''"
| "String_of (JBool v) = Inr (if v then ''true'' else ''false'')"
| "String_of (JNum n) = Inr (printed n)"
| "String_of (JStr s) = Inr s"
| "String_of (JError m) = Inr (if m = [] then ''Error'' else ''Error: '' @ m)"
| "String_of (JObject c) = c"

fun instanceof_Error :: "jsval \<Rightarrow> bool" where
  "instanceof_Error (JError m) = True"
| "instanceof_Error _ = False"

text \<open>
  \<^verbatim>\<open>err instanceof Error ? err : new Error(String(err))\<close>: the \<^verbatim>\<open>Error\<close> to record, or the
  exception thrown by the conversion.
\<close>

definition to_Error :: "jsval \<Rightarrow> jsval + jsval" where
  "to_Error err =
     (if instanceof_Error err then Inr err
      else (case String_of err of Inl v \<Rightarrow> Inl v | Inr s \<Rightarrow> Inr (JError s)))"

text \<open>
  One turn of a loop body, up to the end of its \<^verbatim>\<open>catch\<close> block:
  \<^verbatim>\<open>try { await sub.handler(...) } catch (err) { errors.push(...) }\<close>. The result is the
  new state and the exception that leaves the \<^verbatim>\<open>catch\<close> block, if the conversion of the
  thrown value throws; nothing is pushed then.
\<close>

definition invoke ::
  "'w behaviour \<Rightarrow> pass \<Rightarrow> Subscription \<Rightarrow> jsval list \<Rightarrow> 'w run \<Rightarrow> 'w run \<times> jsval option" where
  "invoke sem k sub args st =
     (case sem (handler sub) args (world st) (bus st) of
        (cs, t, w') \<Rightarrow>
          let st' = st\<lparr>bus := exec_calls cs (bus st),
                       world := w',
                       trace := trace st @ [Invoked k (handler sub) args t],
                       effects := effects st @ cs\<rparr>
          in (case t of
                None \<Rightarrow> (st', None)
              | Some err \<Rightarrow>
                  (case to_Error err of
                     Inr e \<Rightarrow> (st'\<lparr>errors := errors st @ [e]\<rparr>, None)
                   | Inl v \<Rightarrow> (st', Some v))))"

text \<open>
  \<^verbatim>\<open>for (const sub of subs) { ... }\<close>: the array iterator keeps the reference and an
  index, and compares the index with the current length before each turn. The loop
  need not end, since a handler may push onto the array being walked. It ends with
  \<open>Inr toRemove\<close> when the index reaches the length, and with \<open>Inl v\<close> when the exception \<open>v\<close>
  leaves a \<^verbatim>\<open>catch\<close> block: that turn does not reach \<^verbatim>\<open>if (sub.once)\<close>, and no turn follows.
\<close>

partial_function (option) for_of ::
  "'w behaviour \<Rightarrow> pass \<Rightarrow> nat \<Rightarrow> jsval list \<Rightarrow> nat \<Rightarrow> EventHandler list \<Rightarrow> 'w run
     \<Rightarrow> ('w run \<times> (jsval + EventHandler list)) option" where
  "for_of sem k subs args i toRemove st =
     (if i < length (arrays (bus st) subs) then
        (let sub = arrays (bus st) subs ! i in
         case invoke sem k sub args st of
           (st', Some v) \<Rightarrow> Some (st', Inl v)
         | (st', None) \<Rightarrow>
             for_of sem k subs args (Suc i)
               (if is_once sub then toRemove @ [handler sub] else toRemove) st')
      else Some (st, Inr toRemove))"

text \<open>\<^verbatim>\<open>for (const handler of toRemove) { this.off(event, handler); }\<close>\<close>

fun prune :: "string \<Rightarrow> EventHandler list \<Rightarrow> 'w run \<Rightarrow> 'w run" where
  "prune event [] st = st"
| "prune event (h # hs) st =
     prune event hs (st\<lparr>bus := off event h (bus st), effects := effects st @ [Off event h]\<rparr>)"

text \<open>
  The first half of \<^verbatim>\<open>emit\<close>: the loop over \<^verbatim>\<open>this.listeners.get(event) ?? []\<close> and
  the pruning of its once-subscriptions. When the map has no entry, \<^verbatim>\<open>?? []\<close> supplies
  an array nobody else holds, and the loop makes no turn. An exception that leaves the
  loop leaves the method: the pruning is not reached.
\<close>

definition specific_pass ::
  "'w behaviour \<Rightarrow> string \<Rightarrow> jsval list \<Rightarrow> 'w run \<Rightarrow> ('w run \<times> jsval option) option" where
  "specific_pass sem event args st =
     (case (case listeners (bus st) event of
              None \<Rightarrow> Some (st, Inr [])
            | Some subs \<Rightarrow> for_of sem Specific subs args 0 [] st) of
        None \<Rightarrow> None
      | Some (st', Inl v) \<Rightarrow> Some (st', Some v)
      | Some (st', Inr toRemove) \<Rightarrow> Some (prune event toRemove st', None))"

text \<open>
  The second half: the loop over the array that \<^verbatim>\<open>this.wildcardListeners\<close> denotes when
  the loop starts, each handler called with the event name in front of the arguments,
  and the pruning of the once-subscriptions among them.
\<close>

definition wildcard_pass ::
  "'w behaviour \<Rightarrow> string \<Rightarrow> jsval list \<Rightarrow> 'w run \<Rightarrow> ('w run \<times> jsval option) option" where
  "wildcard_pass sem event args st =
     (case for_of sem Wildcard (wildcardListeners (bus st)) (JStr event # args) 0 [] st of
        None \<Rightarrow> None
      | Some (st', Inl v) \<Rightarrow> Some (st', Some v)
      | Some (st', Inr wildcardToRemove) \<Rightarrow> Some (prune ''*'' wildcardToRemove st', None))"

text \<open>
  How the promise returned by \<^verbatim>\<open>emit\<close> settles: it is fulfilled, or rejected with the
  \<^verbatim>\<open>AggregateError\<close> of the last statement, or rejected with the exception that left a
  \<^verbatim>\<open>catch\<close> block.
\<close>

datatype outcome = Resolved | AggregateError "jsval list" string | Uncaught jsval

text \<open>Decimal notation of a natural number, for \<^verbatim>\<open>${errors.length}\<close>.\<close>

definition show_digit :: "nat \<Rightarrow> char" where
  "show_digit d = ''0123456789'' ! (d mod 10)"

fun show_nat :: "nat \<Rightarrow> string" where
  "show_nat n = (if n < 10 then [show_digit n] else show_nat (n div 10) @ [show_digit (n mod 10)])"

declare show_nat.simps [simp del]

definition aggregate_message :: "nat \<Rightarrow> string \<Rightarrow> string" where
  "aggregate_message n event =
     show_nat n @ '' handler(s) threw during '' @ [CHR 0x22] @ event @ [CHR 0x22]"

definition settle :: "string \<Rightarrow> jsval list \<Rightarrow> outcome" where
  "settle event errs =
     (if length errs > 0 then AggregateError errs (aggregate_message (length errs) event)
      else Resolved)"

definition start :: "EventBus \<Rightarrow> 'w \<Rightarrow> 'w run" where
  "start b w = \<lparr>bus = b, world = w, errors = [], trace = [], effects = []\<rparr>"

definition emit ::
  "'w behaviour \<Rightarrow> string \<Rightarrow> jsval list \<Rightarrow> EventBus \<Rightarrow> 'w \<Rightarrow> ('w run \<times> outcome) option" where
  "emit sem event args b w =
     (case specific_pass sem event args (start b w) of
        None \<Rightarrow> None
      | Some (st, Some v) \<Rightarrow> Some (st, Uncaught v)
      | Some (st, None) \<Rightarrow>
          (case wildcard_pass sem event args st of
             None \<Rightarrow> None
           | Some (st', Some v) \<Rightarrow> Some (st', Uncaught v)
           | Some (st', None) \<Rightarrow> Some (st', settle event (errors st'))))"

declare for_of.simps [code]

subsection \<open>The deadline race of \<^verbatim>\<open>waitFor\<close>\<close>

text \<open>
  A promise settles once: \<^verbatim>\<open>resolve\<close> and \<^verbatim>\<open>reject\<close> on a settled promise do nothing.
\<close>

datatype 'a promise = Pending | Fulfilled 'a | Failed jsval

definition resolve :: "'a \<Rightarrow> 'a promise \<Rightarrow> 'a promise" where
  "resolve v p = (case p of Pending \<Rightarrow> Fulfilled v | _ \<Rightarrow> p)"

definition reject :: "jsval \<Rightarrow> 'a promise \<Rightarrow> 'a promise" where
  "reject err p = (case p of Pending \<Rightarrow> Failed err | _ \<Rightarrow> p)"

text \<open>
  What one call of \<^verbatim>\<open>waitFor\<close> leaves outside the bus: the promise it returned and its
  timer. \<open>timer = Some left\<close> is a timer that fires when \<open>left\<close> more milliseconds have
  passed; \<open>timer = None\<close> is one that has fired or was cleared.
\<close>

record waiter =
  result :: "jsval list promise"
  timer :: "nat option"

definition timeout_message :: "string \<Rightarrow> number \<Rightarrow> string" where
  "timeout_message event timeout =
     ''waitFor('' @ [CHR 0x22] @ event @ [CHR 0x22] @ '') timed out after '' @ printed timeout @ ''ms''"

text \<open>The closure \<^verbatim>\<open>(...args) => { clearTimeout(timer); resolve(args); }\<close>.\<close>

definition waitFor_handler :: "jsval list \<Rightarrow> waiter \<Rightarrow> waiter" where
  "waitFor_handler args wt = wt\<lparr>timer := None, result := resolve args (result wt)\<rparr>"

text \<open>
  The timer's callback \<^verbatim>\<open>() => { this.off(event, handler); reject(new Error(...)); }\<close>:
  the call it makes on the registry, and what it does to the promise.
\<close>

definition timer_fires :: "string \<Rightarrow> number \<Rightarrow> EventHandler \<Rightarrow> waiter \<Rightarrow> call list \<times> waiter" where
  "timer_fires event timeout h wt =
     ([Off event h],
      wt\<lparr>timer := None, result := reject (JError (timeout_message event timeout)) (result wt)\<rparr>)"

text \<open>
  \<open>dt\<close> milliseconds pass: a pending timer comes that much closer, and the event loop runs
  its callback once its delay has passed.
\<close>

definition tick :: "string \<Rightarrow> number \<Rightarrow> EventHandler \<Rightarrow> nat \<Rightarrow> waiter \<Rightarrow> call list \<times> waiter" where
  "tick event timeout h dt wt =
     (case timer wt of
        None \<Rightarrow> ([], wt)
      | Some left \<Rightarrow>
          if dt < left then ([], wt\<lparr>timer := Some (left - dt)\<rparr>)
          else timer_fires event timeout h wt)"

text \<open>\<open>dt\<close> milliseconds pass while nothing else runs.\<close>

definition elapse :: "string \<Rightarrow> number \<Rightarrow> EventHandler \<Rightarrow> nat \<Rightarrow> EventBus \<times> waiter \<Rightarrow> EventBus \<times> waiter" where
  "elapse event timeout h dt bw =
     (case tick event timeout h dt (snd bw) of (cs, wt') \<Rightarrow> (exec_calls cs (fst bw), wt'))"

text \<open>
  \<^verbatim>\<open>waitFor(event, timeout)\<close>; \<open>h\<close> is the identity of the closure the call creates.
  The promise itself is the \<open>result\<close> field of the waiter. (The default of \<^verbatim>\<open>timeout\<close> is
  the number \<^verbatim>\<open>5000\<close>.)
\<close>

definition waitFor :: "string \<Rightarrow> number \<Rightarrow> EventHandler \<Rightarrow> EventBus \<Rightarrow> EventBus \<times> waiter" where
  "waitFor event timeout h b =
     (snd (once event h 0 b), \<lparr>result = Pending, timer = Some (millis timeout)\<rparr>)"

text \<open>
  How long an invocation of a handler lasts, in milliseconds: the time until the promise
  it returned settles, and \<^verbatim>\<open>emit\<close> goes on.
\<close>

type_synonym 'w lapse = "EventHandler \<Rightarrow> jsval list \<Rightarrow> 'w \<Rightarrow> EventBus \<Rightarrow> nat"

text \<open>
  The behaviour of all handlers when \<open>h\<close> is the closure of the call
  \<^verbatim>\<open>waitFor(event, timeout)\<close>, and \<open>sem\<close> and \<open>lapse\<close> describe the others. The closure returns
  at once. The others cannot reach the promise or the timer, but while one of them is
  awaited time may pass, and then the timer may fire; after a handler that settles at once
  \<^verbatim>\<open>emit\<close> goes on before any timer can fire.
\<close>

definition with_waiter ::
  "string \<Rightarrow> number \<Rightarrow> EventHandler \<Rightarrow> 'w lapse \<Rightarrow> 'w behaviour \<Rightarrow> (waiter \<times> 'w) behaviour" where
  "with_waiter event timeout h lapse sem g args ww b =
     (case ww of (wt, w) \<Rightarrow>
        if g = h then ([], None, (waitFor_handler args wt, w))
        else (case sem g args w b of (cs, t, w') \<Rightarrow>
                (case (if lapse g args w b = 0 then ([], wt)
                       else tick event timeout h (lapse g args w b) wt) of
                   (ds, wt') \<Rightarrow> (cs @ ds, t, (wt', w')))))"

text \<open>Handlers that settle at once.\<close>

definition prompt :: "'w lapse" where
  "prompt g args w b = 0"

subsection \<open>Notions used in the statements\<close>

text \<open>
  The shape every bus has that \<^verbatim>\<open>new EventBus()\<close> and the methods can produce: references
  are allocated, no array is stored under two names, and the name \<^verbatim>\<open>'*'\<close> has no entry
  in the map.
\<close>

definition wf :: "EventBus \<Rightarrow> bool" where
  "wf b \<longleftrightarrow>
     wildcardListeners b < next_ref b
     \<and> (\<forall>e a. listeners b e = Some a \<longrightarrow> a < next_ref b \<and> a \<noteq> wildcardListeners b)
     \<and> (\<forall>e e' a. listeners b e = Some a \<longrightarrow> listeners b e' = Some a \<longrightarrow> e = e')
     \<and> listeners b ''*'' = None"

text \<open>The sequence the first loop of \<^verbatim>\<open>emit\<close> walks: \<^verbatim>\<open>this.listeners.get(event) ?? []\<close>.\<close>

definition captured :: "EventBus \<Rightarrow> string \<Rightarrow> Subscription list" where
  "captured b event = (case listeners b event of None \<Rightarrow> [] | Some subs \<Rightarrow> arrays b subs)"

text \<open>The array behind reference \<open>a\<close> is stored under no name but \<open>e\<close>.\<close>

definition owned_by :: "EventBus \<Rightarrow> nat \<Rightarrow> string \<Rightarrow> bool" where
  "owned_by b a e \<longleftrightarrow>
     a < next_ref b
     \<and> (wildcardListeners b = a \<longrightarrow> e = ''*'')
     \<and> (\<forall>e'. listeners b e' = Some a \<longrightarrow> e' = e)"

fun registers_on :: "string \<Rightarrow> call \<Rightarrow> bool" where
  "registers_on e (On event h p) = (event = e)"
| "registers_on e (Once event h p) = (event = e)"
| "registers_on e (Off event h) = False"
| "registers_on e (RemoveAllListeners event) = False"

text \<open>No handler ever registers a subscription under the name \<open>e\<close> while it runs.\<close>

definition never_registers :: "'w behaviour \<Rightarrow> string \<Rightarrow> bool" where
  "never_registers sem e \<longleftrightarrow>
     (\<forall>h args w b c. c \<in> set (fst (sem h args w b)) \<longrightarrow> \<not> registers_on e c)"

text \<open>
  No handler ever throws a value whose conversion in the \<^verbatim>\<open>catch\<close> block throws.
\<close>

definition convertible :: "'w behaviour \<Rightarrow> bool" where
  "convertible sem \<longleftrightarrow>
     (\<forall>h args w b v. fst (snd (sem h args w b)) = Some v \<longrightarrow> (\<exists>err. to_Error v = Inr err))"

text \<open>
  A loop over a sequence that does not change while it is walked; it starts from a state
  and the handlers collected for removal so far.
\<close>

fun pass_over ::
  "'w behaviour \<Rightarrow> pass \<Rightarrow> jsval list \<Rightarrow> Subscription list \<Rightarrow> 'w run \<times> EventHandler list
     \<Rightarrow> 'w run \<times> (jsval + EventHandler list)" where
  "pass_over sem k args [] x = (fst x, Inr (snd x))"
| "pass_over sem k args (sub # subs) x =
     (case invoke sem k sub args (fst x) of
        (st', Some v) \<Rightarrow> (st', Inl v)
      | (st', None) \<Rightarrow>
          pass_over sem k args subs (st', if is_once sub then snd x @ [handler sub] else snd x))"

text \<open>The end of a pass: the pruning, unless an exception has left the loop.\<close>

definition finish :: "string \<Rightarrow> 'w run \<times> (jsval + EventHandler list) \<Rightarrow> 'w run \<times> jsval option" where
  "finish event y =
     (case snd y of Inl v \<Rightarrow> (fst y, Some v) | Inr toRemove \<Rightarrow> (prune event toRemove (fst y), None))"

text \<open>The pass of an emission of \<open>e\<close> that walks the sequence registered under \<open>e\<close> itself.\<close>

definition own_pass :: "string \<Rightarrow> pass" where
  "own_pass e = (if e = ''*'' then Wildcard else Specific)"





text \<open>
  The calls that can reach the registry during an emission: those the handlers make, and
  the \<^verbatim>\<open>off\<close> calls of the pruning loops.
\<close>

definition made_during :: "'w behaviour \<Rightarrow> call \<Rightarrow> bool" where
  "made_during sem c \<longleftrightarrow>
     (\<exists>e h. c = Off e h) \<or> (\<exists>h args w b. c \<in> set (fst (sem h args w b)))"

text \<open>
  What a loop of \<^verbatim>\<open>emit\<close> may do to the state of the emission: it appends invocations of
  its own pass and the calls made meanwhile.
\<close>

definition extends :: "'w behaviour \<Rightarrow> pass \<Rightarrow> jsval list \<Rightarrow> 'w run \<Rightarrow> 'w run \<Rightarrow> bool" where
  "extends sem k args st st' \<longleftrightarrow>
     (\<exists>T cs. trace st' = trace st @ T
        \<and> (\<forall>x\<in>set T. inv_pass x = k \<and> inv_args x = args)
        \<and> effects st' = effects st @ cs
        \<and> (\<forall>c\<in>set cs. made_during sem c)
        \<and> bus st' = exec_calls cs (bus st))"

text \<open>A further emission, on the bus and the outside state that the previous one left.\<close>

definition emit_again ::
  "'w behaviour \<Rightarrow> string \<Rightarrow> jsval list \<Rightarrow> ('w run \<times> outcome) option \<Rightarrow> ('w run \<times> outcome) option" where
  "emit_again sem event args prev =
     (case prev of None \<Rightarrow> None | Some (r, out) \<Rightarrow> emit sem event args (bus r) (world r))"

subsection \<open>Concrete handlers and buses\<close>

text \<open>The number \<^verbatim>\<open>1000\<close>: one second, as a delay.\<close>

definition one_second :: number where
  "one_second = \<lparr>printed = ''1000'', millis = 1000\<rparr>"

text \<open>A handler that does nothing.\<close>

definition silent :: "unit behaviour" where
  "silent h args w b = ([], None, w)"

text \<open>
  The scenario of the specification: handler 0 at priority 10 throws the string \<^verbatim>\<open>"x"\<close>,
  handler 1 at priority 1 returns normally, both on \<^verbatim>\<open>"ping"\<close>; handler 2 listens on
  the wildcard name.
\<close>

definition ping_bus :: EventBus where
  "ping_bus = exec_calls [On ''ping'' 1 1, On ''ping'' 0 10, On ''*'' 2 0] new_EventBus"

definition ping_sem :: "unit behaviour" where
  "ping_sem h args w b = (if h = 0 then ([], Some (JStr ''x''), w) else ([], None, w))"


text \<open>Handler 0 registers handler 1 on the event being emitted, at its own priority.\<close>

definition late_subscriber :: "unit behaviour" where
  "late_subscriber h args w b = (if h = 0 then ([On ''e'' 1 0], None, w) else ([], None, w))"

text \<open>Handler 0 registers handler 1 at a higher priority, the first time it runs.\<close>

definition early_subscriber :: "unit behaviour" where
  "early_subscriber h args w b =
     (if h = 0 \<and> listenerCount ''e'' b = 1 then ([On ''e'' 1 5], None, w) else ([], None, w))"

text \<open>
  The object \<^verbatim>\<open>Object.create(null)\<close>: it has no \<^verbatim>\<open>toString\<close>, and \<^verbatim>\<open>String\<close> applied to it throws
  a \<^verbatim>\<open>TypeError\<close>.
\<close>

definition bare_object :: jsval where
  "bare_object = JObject (Inl (JError ''Cannot convert object to primitive value''))"

text \<open>Handler 0 throws that object; the other handlers return normally.\<close>

definition object_thrower :: "unit behaviour" where
  "object_thrower h args w b = (if h = 0 then ([], Some bare_object, w) else ([], None, w))"

text \<open>Handler 0 unsubscribes handler 1 from \<^verbatim>\<open>"ping"\<close>.\<close>

definition unsubscriber :: "unit behaviour" where
  "unsubscriber h args w b = (if h = 0 then ([Off ''ping'' 1], None, w) else ([], None, w))"

text \<open>Handler 0 unsubscribes handler 1 from \<^verbatim>\<open>"ping"\<close> and then throws that object.\<close>

definition unsubscribing_thrower :: "unit behaviour" where
  "unsubscribing_thrower h args w b =
     (if h = 0 then ([Off ''ping'' 1], Some bare_object, w) else ([], None, w))"

text \<open>
  Handler 1 registers handlers 2 and 3 on \<^verbatim>\<open>"e"\<close> at priority 10, the first time it runs
  (when \<^verbatim>\<open>"e"\<close> has two subscribers).
\<close>

definition double_subscriber :: "unit behaviour" where
  "double_subscriber h args w b =
     (if h = 1 \<and> listenerCount ''e'' b = 2 then ([On ''e'' 2 10, On ''e'' 3 10], None, w)
      else ([], None, w))"

text \<open>
  Handler 0 throws an \<^verbatim>\<open>Error\<close> whenever it runs, and the first time (when \<^verbatim>\<open>"e"\<close> has one
  subscriber) it registers handler 1 there at priority 5 before it throws.
\<close>

definition failing_subscriber :: "unit behaviour" where
  "failing_subscriber h args w b =
     (if h = 0 then ((if listenerCount ''e'' b = 1 then [On ''e'' 1 5] else []), Some (JError ''x''), w)
      else ([], None, w))"

text \<open>
  Handler 0 registers handler 1 on the wildcard name at priority 5, the first time it
  runs (when the wildcard name has one subscriber).
\<close>

definition wildcard_subscriber :: "unit behaviour" where
  "wildcard_subscriber h args w b =
     (if h = 0 \<and> listenerCount ''*'' b = 1 then ([On ''*'' 1 5], None, w) else ([], None, w))"

text \<open>Handler 0 settles after two seconds, the other handlers at once.\<close>

definition slow_first :: "unit lapse" where
  "slow_first g args w b = (if g = 0 then 2000 else 0)"

section \<open>Properties of the model\<close>

subsection \<open>Well-formed buses and the effect of the calls\<close>


lemma wf_on: "wf b \<Longrightarrow> wf (snd (on e h p b))"
  by (auto simp: wf_def on_def new_array_def push_sort_def Let_def less_Suc_eq split: if_splits)

lemma wf_once: "wf b \<Longrightarrow> wf (snd (once e h p b))"
  by (auto simp: wf_def once_def new_array_def push_sort_def Let_def less_Suc_eq split: if_splits)

lemma wf_off: "wf b \<Longrightarrow> wf (off e h b)"
  by (auto simp: wf_def off_def new_array_def Let_def less_Suc_eq split: if_splits option.splits)

lemma wf_removeAllListeners: "wf b \<Longrightarrow> wf (removeAllListeners ev b)"
  by (auto simp: wf_def removeAllListeners_def new_array_def Let_def less_Suc_eq split: if_splits)

lemma wf_exec_call: "wf b \<Longrightarrow> wf (exec_call c b)"
  by (cases c) (simp_all add: wf_on wf_once wf_off wf_removeAllListeners)

lemma wf_exec_calls: "wf b \<Longrightarrow> wf (exec_calls cs b)"
  by (induction cs arbitrary: b) (simp_all add: wf_exec_call)

lemma subs_of_on:
  "wf b \<Longrightarrow> subs_of (snd (on e h p b)) e' =
     (if e' = e then sort_key (\<lambda>x. - priority x) (subs_of b e @ [\<lparr>handler = h, priority = p, is_once = False\<rparr>])
      else subs_of b e')"
  by (auto simp: wf_def subs_of_def on_def new_array_def push_sort_def Let_def split: if_splits option.splits)

lemma subs_of_once:
  "wf b \<Longrightarrow> subs_of (snd (once e h p b)) e' =
     (if e' = e then sort_key (\<lambda>x. - priority x) (subs_of b e @ [\<lparr>handler = h, priority = p, is_once = True\<rparr>])
      else subs_of b e')"
  by (auto simp: wf_def subs_of_def once_def new_array_def push_sort_def Let_def split: if_splits option.splits)

lemma subs_of_off:
  "wf b \<Longrightarrow> subs_of (off e h b) e' =
     (if e' = e then filter (\<lambda>s. handler s \<noteq> h) (subs_of b e) else subs_of b e')"
  by (auto simp: wf_def subs_of_def off_def new_array_def Let_def split: if_splits option.splits)

lemma subs_of_removeAllListeners:
  "wf b \<Longrightarrow> subs_of (removeAllListeners ev b) e' =
     (if ev = Some ''*'' then (if e' = ''*'' then [] else subs_of b e')
      else if ev \<noteq> None \<and> ev \<noteq> Some [] then (if e' = the ev then [] else subs_of b e')
      else [])"
  by (auto simp: wf_def subs_of_def removeAllListeners_def new_array_def Let_def split: if_splits option.splits)

lemma owned_exec_call:
  "owned_by b a e \<Longrightarrow> \<not> registers_on e c \<Longrightarrow>
     arrays (exec_call c b) a = arrays b a \<and> owned_by (exec_call c b) a e"
  by (cases c)
     (auto simp: owned_by_def on_def once_def off_def removeAllListeners_def new_array_def push_sort_def Let_def
           split: if_splits option.splits)

lemma owned_exec_calls:
  "owned_by b a e \<Longrightarrow> \<forall>c\<in>set cs. \<not> registers_on e c \<Longrightarrow>
     arrays (exec_calls cs b) a = arrays b a \<and> owned_by (exec_calls cs b) a e"
proof (induction cs arbitrary: b)
  case Nil
  then show ?case by simp
next
  case (Cons c cs)
  from Cons.prems have 1: "arrays (exec_call c b) a = arrays b a" and 2: "owned_by (exec_call c b) a e"
    using owned_exec_call[of b a e c] by simp_all
  from Cons.IH[OF 2] Cons.prems(2) 1 show ?case by simp
qed

subsection \<open>One turn of a loop\<close>

lemma bus_invoke:
  "bus (fst (invoke sem k sub args st)) = exec_calls (fst (sem (handler sub) args (world st) (bus st))) (bus st)"
  by (simp add: invoke_def Let_def split: prod.splits option.splits sum.splits)

lemma world_invoke:
  "world (fst (invoke sem k sub args st)) = snd (snd (sem (handler sub) args (world st) (bus st)))"
  by (simp add: invoke_def Let_def split: prod.splits option.splits sum.splits)

lemma trace_invoke:
  "trace (fst (invoke sem k sub args st)) =
     trace st @ [Invoked k (handler sub) args (fst (snd (sem (handler sub) args (world st) (bus st))))]"
  by (simp add: invoke_def Let_def split: prod.splits option.splits sum.splits)

lemma effects_invoke:
  "effects (fst (invoke sem k sub args st)) = effects st @ fst (sem (handler sub) args (world st) (bus st))"
  by (simp add: invoke_def Let_def split: prod.splits option.splits sum.splits)

lemma convertible_invoke: "convertible sem \<Longrightarrow> snd (invoke sem k sub args st) = None"
  unfolding convertible_def invoke_def Let_def
  by (auto split: prod.splits option.splits sum.splits) (metis fst_conv snd_conv sum.distinct(1))

lemma exec_calls_append: "exec_calls (cs @ ds) b = exec_calls ds (exec_calls cs b)"
  by (induction cs arbitrary: b) simp_all

lemma owned_invoke:
  assumes "never_registers sem e" and "owned_by (bus st) a e"
  shows "arrays (bus (fst (invoke sem k sub args st))) a = arrays (bus st) a"
    and "owned_by (bus (fst (invoke sem k sub args st))) a e"
proof -
  have "\<forall>c\<in>set (fst (sem (handler sub) args (world st) (bus st))). \<not> registers_on e c"
    using assms(1) by (simp add: never_registers_def)
  from owned_exec_calls[OF assms(2) this]
  show "arrays (bus (fst (invoke sem k sub args st))) a = arrays (bus st) a"
    and "owned_by (bus (fst (invoke sem k sub args st))) a e"
    by (simp_all add: bus_invoke)
qed

lemma for_of_frozen:
  assumes nr: "never_registers sem e"
  shows "owned_by (bus st) a e \<Longrightarrow>
         for_of sem k a args i tr st = Some (pass_over sem k args (drop i (arrays (bus st) a)) (st, tr))"
proof (induction "length (arrays (bus st) a) - i" arbitrary: i st tr)
  case 0
  then have "\<not> i < length (arrays (bus st) a)" by simp
  then show ?case by (subst for_of.simps) simp
next
  case (Suc n)
  let ?arr = "arrays (bus st) a"
  let ?sub = "?arr ! i"
  let ?tr' = "if is_once ?sub then tr @ [handler ?sub] else tr"
  obtain st' ex where inv: "invoke sem k ?sub args st = (st', ex)" by (cases "invoke sem k ?sub args st")
  from Suc.hyps(2) have lt: "i < length ?arr" by simp
  have fr: "arrays (bus st') a = ?arr" and ow: "owned_by (bus st') a e"
    using owned_invoke[OF nr Suc.prems, of k ?sub args] by (simp_all add: inv)
  have n: "n = length (arrays (bus st') a) - Suc i" using Suc.hyps(2) fr by simp
  have dr: "drop i ?arr = ?sub # drop (Suc i) ?arr"
    using lt by (simp add: Cons_nth_drop_Suc)
  have IH: "for_of sem k a args (Suc i) ?tr' st' = Some (pass_over sem k args (drop (Suc i) ?arr) (st', ?tr'))"
    using Suc.hyps(1)[OF n ow, of ?tr'] by (simp add: fr)
  show ?case
  proof (cases ex)
    case None
    have "for_of sem k a args i tr st = for_of sem k a args (Suc i) ?tr' st'"
      using lt by (subst for_of.simps) (simp add: Let_def inv None)
    then show ?thesis using IH by (simp add: dr inv None)
  next
    case (Some v)
    have "for_of sem k a args i tr st = Some (st', Inl v)"
      using lt by (subst for_of.simps) (simp add: Let_def inv Some)
    then show ?thesis by (simp add: dr inv Some)
  qed
qed

lemma never_registers_made:
  "never_registers sem e \<Longrightarrow> made_during sem c \<Longrightarrow> \<not> registers_on e c"
  by (auto simp: never_registers_def made_during_def)

lemma extends_refl: "extends sem k args st st"
  unfolding extends_def by (intro exI[of _ "[]"]) simp

lemma extends_invoke: "extends sem k args st (fst (invoke sem k sub args st))"
  unfolding extends_def
  by (intro exI[of _ "[Invoked k (handler sub) args (fst (snd (sem (handler sub) args (world st) (bus st))))]"]
            exI[of _ "fst (sem (handler sub) args (world st) (bus st))"])
     (auto simp: trace_invoke effects_invoke bus_invoke made_during_def)

lemma extends_trans:
  assumes "extends sem k args st st'" and "extends sem k args st' st''"
  shows "extends sem k args st st''"
proof -
  from assms(1) obtain T cs where 1: "trace st' = trace st @ T"
    "\<forall>x\<in>set T. inv_pass x = k \<and> inv_args x = args"
    "effects st' = effects st @ cs" "\<forall>c\<in>set cs. made_during sem c" "bus st' = exec_calls cs (bus st)"
    unfolding extends_def by blast
  from assms(2) obtain T' cs' where 2: "trace st'' = trace st' @ T'"
    "\<forall>x\<in>set T'. inv_pass x = k \<and> inv_args x = args"
    "effects st'' = effects st' @ cs'" "\<forall>c\<in>set cs'. made_during sem c" "bus st'' = exec_calls cs' (bus st')"
    unfolding extends_def by blast
  show ?thesis unfolding extends_def
    by (intro exI[of _ "T @ T'"] exI[of _ "cs @ cs'"])
       (use 1 2 in \<open>auto simp: exec_calls_append\<close>)
qed

lemma for_of_extends:
  assumes "for_of sem k a args i tr st = Some y"
  shows "extends sem k args st (fst y)"
proof (rule for_of.raw_induct[where P = "\<lambda>sem k a args i tr st y. extends sem k args st (fst y)", OF _ assms])
  fix f :: "'a behaviour \<Rightarrow> pass \<Rightarrow> nat \<Rightarrow> jsval list \<Rightarrow> nat \<Rightarrow> EventHandler list \<Rightarrow> 'a run
              \<Rightarrow> ('a run \<times> (jsval + EventHandler list)) option"
    and sem k a args i tr st y
  assume IH: "\<And>sem k a args i tr st y. f sem k a args i tr st = Some y \<Longrightarrow> extends sem k args st (fst y)"
  assume eq: "(if i < length (arrays (bus st) a) then
        (let sub = arrays (bus st) a ! i in
         case invoke sem k sub args st of
           (st', Some v) \<Rightarrow> Some (st', Inl v)
         | (st', None) \<Rightarrow>
             f sem k a args (Suc i)
               (if is_once sub then tr @ [handler sub] else tr) st')
      else Some (st, Inr tr)) = Some y"
  let ?sub = "arrays (bus st) a ! i"
  obtain st' ex where inv: "invoke sem k ?sub args st = (st', ex)" by (cases "invoke sem k ?sub args st")
  have ext: "extends sem k args st st'"
    using extends_invoke[of sem k args st ?sub] by (simp add: inv)
  show "extends sem k args st (fst y)"
  proof (cases "i < length (arrays (bus st) a)")
    case False
    with eq show ?thesis by (auto simp: extends_refl)
  next
    case True
    show ?thesis
    proof (cases ex)
      case None
      from eq True have "f sem k a args (Suc i) (if is_once ?sub then tr @ [handler ?sub] else tr) st' = Some y"
        by (simp add: Let_def inv None)
      from IH[OF this] have "extends sem k args st' (fst y)" .
      with ext show ?thesis by (rule extends_trans)
    next
      case (Some v)
      from eq True have "y = (st', Inl v)" by (simp add: Let_def inv Some)
      then show ?thesis by (simp add: ext)
    qed
  qed
qed

subsection \<open>The two passes\<close>

lemma prune_fields:
  "trace (prune e hs st) = trace st" "errors (prune e hs st) = errors st"
  "world (prune e hs st) = world st"
  "bus (prune e hs st) = exec_calls (map (Off e) hs) (bus st)"
  "effects (prune e hs st) = effects st @ map (Off e) hs"
  by (induction hs arbitrary: st) simp_all

lemma extends_prune: "extends sem k args st (prune e hs st)"
  unfolding extends_def
  by (intro exI[of _ "[]"] exI[of _ "map (Off e) hs"]) (auto simp: prune_fields made_during_def)

lemma extends_finish:
  assumes "extends sem k args st (fst y)"
  shows "extends sem k args st (fst (finish e y))"
proof (cases "snd y")
  case (Inl v)
  then show ?thesis using assms by (simp add: finish_def)
next
  case (Inr tr)
  have "extends sem k args (fst y) (prune e tr (fst y))" by (rule extends_prune)
  with assms have "extends sem k args st (prune e tr (fst y))" by (rule extends_trans)
  then show ?thesis using Inr by (simp add: finish_def)
qed

lemma pass_over_Cons_convertible:
  assumes "convertible sem"
  shows "pass_over sem k args (sub # subs) x =
           pass_over sem k args subs
             (fst (invoke sem k sub args (fst x)), if is_once sub then snd x @ [handler sub] else snd x)"
proof -
  obtain st' ex where inv: "invoke sem k sub args (fst x) = (st', ex)"
    by (cases "invoke sem k sub args (fst x)")
  from convertible_invoke[OF assms, of k sub args "fst x"] have "ex = None" by (simp add: inv)
  then show ?thesis by (simp add: inv)
qed

lemma pass_over_convertible:
  assumes "convertible sem"
  shows "snd (pass_over sem k args subs x) = Inr (snd x @ map handler (filter is_once subs))"
proof (induction subs arbitrary: x)
  case Nil
  show ?case by simp
next
  case (Cons sub subs)
  show ?case
    by (simp only: pass_over_Cons_convertible[OF assms] Cons.IH) simp
qed

lemma pass_over_trace:
  "\<exists>T n. trace (fst (pass_over sem k args subs x)) = trace (fst x) @ T
       \<and> (\<forall>t\<in>set T. inv_pass t = k \<and> inv_args t = args)
       \<and> map inv_handler T = map handler (take n subs)
       \<and> (\<forall>tr. snd (pass_over sem k args subs x) = Inr tr \<longrightarrow>
             map inv_handler T = map handler subs \<and> tr = snd x @ map handler (filter is_once subs))"
proof (induction subs arbitrary: x)
  case Nil
  show ?case by (intro exI[of _ "[]"] exI[of _ 0]) simp
next
  case (Cons sub subs)
  obtain st' ex where inv: "invoke sem k sub args (fst x) = (st', ex)"
    by (cases "invoke sem k sub args (fst x)")
  let ?t = "Invoked k (handler sub) args (fst (snd (sem (handler sub) args (world (fst x)) (bus (fst x)))))"
  have tr: "trace st' = trace (fst x) @ [?t]"
    using trace_invoke[of sem k sub args "fst x"] by (simp add: inv)
  show ?case
  proof (cases ex)
    case (Some v)
    show ?thesis
      by (intro exI[of _ "[?t]"] exI[of _ 1]) (simp add: inv Some tr)
  next
    case None
    let ?x' = "(st', if is_once sub then snd x @ [handler sub] else snd x)"
    have po: "pass_over sem k args (sub # subs) x = pass_over sem k args subs ?x'"
      by (simp add: inv None)
    from Cons.IH[of ?x'] obtain T n where
      all: "trace (fst (pass_over sem k args subs ?x')) = trace (fst ?x') @ T
         \<and> (\<forall>t\<in>set T. inv_pass t = k \<and> inv_args t = args)
         \<and> map inv_handler T = map handler (take n subs)
         \<and> (\<forall>tr. snd (pass_over sem k args subs ?x') = Inr tr \<longrightarrow>
             map inv_handler T = map handler subs \<and> tr = snd ?x' @ map handler (filter is_once subs))"
      by blast
    have T: "trace (fst (pass_over sem k args subs ?x')) = trace st' @ T"
         "\<forall>t\<in>set T. inv_pass t = k \<and> inv_args t = args"
         "map inv_handler T = map handler (take n subs)"
         "\<forall>tr. snd (pass_over sem k args subs ?x') = Inr tr \<longrightarrow>
             map inv_handler T = map handler subs \<and> tr = snd ?x' @ map handler (filter is_once subs)"
      using all by (simp only: fst_conv, blast)+
    show ?thesis
      unfolding po
      by (intro exI[of _ "?t # T"] exI[of _ "Suc n"]) (use T tr in auto)
  qed
qed

lemma pass_over_extends: "extends sem k args (fst x) (fst (pass_over sem k args subs x))"
proof (induction subs arbitrary: x)
  case Nil
  show ?case by (simp add: extends_refl)
next
  case (Cons sub subs)
  obtain st' ex where inv: "invoke sem k sub args (fst x) = (st', ex)"
    by (cases "invoke sem k sub args (fst x)")
  have a: "extends sem k args (fst x) st'"
    using extends_invoke[of sem k args "fst x" sub] by (simp add: inv)
  show ?case
  proof (cases ex)
    case (Some v)
    then show ?thesis using a by (simp add: inv)
  next
    case None
    let ?x' = "(st', if is_once sub then snd x @ [handler sub] else snd x)"
    have b: "extends sem k args st' (fst (pass_over sem k args subs ?x'))"
      using Cons.IH[of ?x'] by (simp only: fst_conv)
    have "extends sem k args (fst x) (fst (pass_over sem k args subs ?x'))"
      by (rule extends_trans[OF a b])
    then show ?thesis by (simp add: inv None)
  qed
qed

lemma extends_wf: "extends sem k args st st' \<Longrightarrow> wf (bus st) \<Longrightarrow> wf (bus st')"
  unfolding extends_def by (auto simp: wf_exec_calls)

lemma specific_pass_finish:
  "specific_pass sem e args st =
     map_option (finish e)
       (case listeners (bus st) e of None \<Rightarrow> Some (st, Inr []) | Some subs \<Rightarrow> for_of sem Specific subs args 0 [] st)"
  by (simp add: specific_pass_def finish_def split: option.splits prod.splits sum.splits)

lemma wildcard_pass_finish:
  "wildcard_pass sem e args st =
     map_option (finish ''*'') (for_of sem Wildcard (wildcardListeners (bus st)) (JStr e # args) 0 [] st)"
  by (simp add: wildcard_pass_def finish_def split: option.splits prod.splits sum.splits)

lemma specific_pass_extends:
  assumes "specific_pass sem e args st = Some y"
  shows "extends sem Specific args st (fst y)"
proof (cases "listeners (bus st) e")
  case None
  with assms have "y = finish e (st, Inr [])" by (simp add: specific_pass_finish)
  then show ?thesis by (simp add: finish_def extends_refl)
next
  case (Some a)
  with assms obtain z where z: "for_of sem Specific a args 0 [] st = Some z" and y: "y = finish e z"
    by (auto simp: specific_pass_finish)
  from extends_finish[OF for_of_extends[OF z], of e] y show ?thesis by simp
qed

lemma wildcard_pass_extends:
  assumes "wildcard_pass sem e args st = Some y"
  shows "extends sem Wildcard (JStr e # args) st (fst y)"
proof -
  from assms obtain z where
    z: "for_of sem Wildcard (wildcardListeners (bus st)) (JStr e # args) 0 [] st = Some z" and
    y: "y = finish ''*'' z"
    by (auto simp: wildcard_pass_finish)
  from extends_finish[OF for_of_extends[OF z], of "''*''"] y show ?thesis by simp
qed

lemma emit_SomeD:
  assumes "emit sem e args b w = Some (r, out)"
  shows "(\<exists>v. specific_pass sem e args (start b w) = Some (r, Some v) \<and> out = Uncaught v)
       \<or> (\<exists>st. specific_pass sem e args (start b w) = Some (st, None)
              \<and> ((\<exists>v. wildcard_pass sem e args st = Some (r, Some v) \<and> out = Uncaught v)
                 \<or> (wildcard_pass sem e args st = Some (r, None) \<and> out = settle e (errors r))))"
  using assms by (auto simp: emit_def split: option.splits prod.splits)

lemma wf_owned_specific: "wf b \<Longrightarrow> listeners b e = Some a \<Longrightarrow> owned_by b a e"
  by (auto simp: wf_def owned_by_def)

lemma wf_owned_wildcard: "wf b \<Longrightarrow> owned_by b (wildcardListeners b) ''*''"
  by (auto simp: wf_def owned_by_def)

lemma specific_pass_frozen:
  assumes "wf (bus st)" and "never_registers sem e"
  shows "specific_pass sem e args st =
           Some (finish e (pass_over sem Specific args (captured (bus st) e) (st, [])))"
proof (cases "listeners (bus st) e")
  case None
  then show ?thesis by (simp add: specific_pass_finish captured_def)
next
  case (Some a)
  from for_of_frozen[OF assms(2) wf_owned_specific[OF assms(1) Some], of Specific args 0 "[]"]
  show ?thesis using Some by (simp add: specific_pass_finish captured_def)
qed

lemma wildcard_pass_frozen:
  assumes "wf (bus st)" and "never_registers sem ''*''"
  shows "wildcard_pass sem e args st =
           Some (finish ''*'' (pass_over sem Wildcard (JStr e # args) (subs_of (bus st) ''*'') (st, [])))"
  using for_of_frozen[OF assms(2) wf_owned_wildcard[OF assms(1)], of Wildcard "JStr e # args" 0 "[]"]
  by (simp add: wildcard_pass_finish subs_of_def)

lemma start_fields:
  "bus (start b w) = b" "world (start b w) = w" "errors (start b w) = []"
  "trace (start b w) = []" "effects (start b w) = []"
  by (simp_all add: start_def)

lemma emit_general:
  assumes "emit sem e args b w = Some (r, out)"
  shows "\<exists>S W. trace r = S @ W
           \<and> (\<forall>x\<in>set S. inv_pass x = Specific \<and> inv_args x = args)
           \<and> (\<forall>x\<in>set W. inv_pass x = Wildcard \<and> inv_args x = JStr e # args)
           \<and> bus r = exec_calls (effects r) b
           \<and> (\<forall>c\<in>set (effects r). made_during sem c)"
proof -
  from emit_SomeD[OF assms] consider
    (first) v where "specific_pass sem e args (start b w) = Some (r, Some v)"
  | (second) st ex where "specific_pass sem e args (start b w) = Some (st, None)"
      "wildcard_pass sem e args st = Some (r, ex)"
    by blast
  then show ?thesis
  proof cases
    case first
    from specific_pass_extends[OF first] obtain S cs where
      S: "trace r = S" "\<forall>x\<in>set S. inv_pass x = Specific \<and> inv_args x = args"
         "effects r = cs" "\<forall>c\<in>set cs. made_during sem c" "bus r = exec_calls cs b"
      unfolding extends_def by (auto simp: start_fields)
    show ?thesis
      by (intro exI[of _ S] exI[of _ "[]"]) (use S in auto)
  next
    case second
    from specific_pass_extends[OF second(1)] obtain S cs where
      S: "trace st = S" "\<forall>x\<in>set S. inv_pass x = Specific \<and> inv_args x = args"
         "effects st = cs" "\<forall>c\<in>set cs. made_during sem c" "bus st = exec_calls cs b"
      unfolding extends_def by (auto simp: start_fields)
    from wildcard_pass_extends[OF second(2)] obtain W ds where
      W: "trace r = trace st @ W" "\<forall>x\<in>set W. inv_pass x = Wildcard \<and> inv_args x = JStr e # args"
         "effects r = effects st @ ds" "\<forall>c\<in>set ds. made_during sem c" "bus r = exec_calls ds (bus st)"
      unfolding extends_def by auto
    show ?thesis
      by (intro exI[of _ S] exI[of _ W]) (use S W in \<open>auto simp: exec_calls_append\<close>)
  qed
qed

lemma finish_fields:
  "trace (fst (finish e y)) = trace (fst y)" "errors (fst (finish e y)) = errors (fst y)"
  "world (fst (finish e y)) = world (fst y)"
  "snd (finish e y) = (case snd y of Inl v \<Rightarrow> Some v | Inr tr \<Rightarrow> None)"
  "effects (fst (finish e y)) = effects (fst y) @ (case snd y of Inl v \<Rightarrow> [] | Inr tr \<Rightarrow> map (Off e) tr)"
  by (simp_all add: finish_def prune_fields split: sum.splits)

lemma emit_from_passes:
  assumes "specific_pass sem e args (start b w) = Some y1" and "wildcard_pass sem e args (fst y1) = Some y2"
  shows "emit sem e args b w =
           Some (case snd y1 of
                   Some v \<Rightarrow> (fst y1, Uncaught v)
                 | None \<Rightarrow> (case snd y2 of
                               Some v \<Rightarrow> (fst y2, Uncaught v)
                             | None \<Rightarrow> (fst y2, settle e (errors (fst y2)))))"
  using assms by (cases y1; cases y2) (simp add: emit_def split: option.splits)

lemma emit_frozen:
  assumes "wf b" and "never_registers sem e" and "never_registers sem ''*''"
  shows "\<exists>y1 y2. y1 = finish e (pass_over sem Specific args (captured b e) (start b w, []))
            \<and> y2 = finish ''*'' (pass_over sem Wildcard (JStr e # args) (subs_of (bus (fst y1)) ''*'') (fst y1, []))
            \<and> wf (bus (fst y1)) \<and> wf (bus (fst y2))
            \<and> emit sem e args b w =
                Some (case snd y1 of
                        Some v \<Rightarrow> (fst y1, Uncaught v)
                      | None \<Rightarrow> (case snd y2 of
                                    Some v \<Rightarrow> (fst y2, Uncaught v)
                                  | None \<Rightarrow> (fst y2, settle e (errors (fst y2)))))"
proof -
  let ?ini = "start b w"
  have b0: "bus ?ini = b" by (simp add: start_def)
  let ?y1 = "finish e (pass_over sem Specific args (captured b e) (?ini, []))"
  have 1: "specific_pass sem e args ?ini = Some ?y1"
    using specific_pass_frozen[where st = ?ini and sem = sem and e = e and args = args] assms(1,2)
    by (simp add: b0)
  have wf1: "wf (bus (fst ?y1))"
    using extends_wf[OF specific_pass_extends[OF 1]] assms(1) by (simp add: b0)
  let ?y2 = "finish ''*'' (pass_over sem Wildcard (JStr e # args) (subs_of (bus (fst ?y1)) ''*'') (fst ?y1, []))"
  have 2: "wildcard_pass sem e args (fst ?y1) = Some ?y2"
    by (rule wildcard_pass_frozen[OF wf1 assms(3)])
  have wf2: "wf (bus (fst ?y2))"
    using extends_wf[OF wildcard_pass_extends[OF 2] wf1] .
  note 3 = emit_from_passes[OF 1 2]
  show ?thesis
    by (intro exI[of _ ?y1] exI[of _ ?y2] conjI refl wf1 wf2 3)
qed

subsection \<open>Further facts used by the claims\<close>

text \<open>The definitions unfolded when a concrete emission is evaluated.\<close>

lemmas run_defs =
  emit_def specific_pass_def wildcard_pass_def start_def settle_def aggregate_message_def
  invoke_def to_Error_def for_of.simps
  on_def once_def off_def removeAllListeners_def new_array_def push_sort_def new_EventBus_def
  listenerCount_def subs_of_def captured_def show_nat.simps show_digit_def Let_def


lemma filter_pass_append:
  assumes "\<forall>x\<in>set S. inv_pass x = Specific" and "\<forall>x\<in>set W. inv_pass x = Wildcard"
  shows "filter (\<lambda>x. inv_pass x = Specific) (S @ W) = S"
    and "filter (\<lambda>x. inv_pass x = Wildcard) (S @ W) = W"
proof -
  have "filter (\<lambda>x. inv_pass x = Specific) S = S" "filter (\<lambda>x. inv_pass x = Specific) W = []"
       "filter (\<lambda>x. inv_pass x = Wildcard) S = []" "filter (\<lambda>x. inv_pass x = Wildcard) W = W"
    using assms by (auto simp: filter_id_conv filter_empty_conv)
  then show "filter (\<lambda>x. inv_pass x = Specific) (S @ W) = S"
    and "filter (\<lambda>x. inv_pass x = Wildcard) (S @ W) = W" by simp_all
qed

lemma subs_of_shrinks:
  assumes "wf b" and "\<not> registers_on e c"
  shows "set (subs_of (exec_call c b) e) \<subseteq> set (subs_of b e)"
  using assms
  by (cases c) (auto simp: subs_of_on subs_of_once subs_of_off subs_of_removeAllListeners split: if_splits)

lemma subs_of_shrinks_calls:
  assumes "wf b" and "\<forall>c\<in>set cs. \<not> registers_on e c"
  shows "set (subs_of (exec_calls cs b) e) \<subseteq> set (subs_of b e)"
  using assms
proof (induction cs arbitrary: b)
  case Nil
  then show ?case by simp
next
  case (Cons c cs)
  have "set (subs_of (exec_calls cs (exec_call c b)) e) \<subseteq> set (subs_of (exec_call c b) e)"
    using Cons.IH[of "exec_call c b"] Cons.prems by (simp add: wf_exec_call)
  moreover have "set (subs_of (exec_call c b) e) \<subseteq> set (subs_of b e)"
    using subs_of_shrinks[of b e c] Cons.prems by simp
  ultimately show ?case by auto
qed

lemma off_stays_off:
  assumes "wf b" and "\<forall>c\<in>set cs. \<not> registers_on e c" and "Off e h \<in> set cs"
  shows "h \<notin> handler ` set (subs_of (exec_calls cs b) e)"
  using assms
proof (induction cs arbitrary: b)
  case Nil
  then show ?case by simp
next
  case (Cons c cs)
  show ?case
  proof (cases "Off e h \<in> set cs")
    case True
    then show ?thesis using Cons.IH[of "exec_call c b"] Cons.prems by (simp add: wf_exec_call)
  next
    case False
    with Cons.prems(3) have c: "c = Off e h" by simp
    have "h \<notin> handler ` set (subs_of (exec_call c b) e)"
      using Cons.prems(1) by (auto simp: c subs_of_off)
    moreover have "set (subs_of (exec_calls cs (exec_call c b)) e) \<subseteq> set (subs_of (exec_call c b) e)"
      using subs_of_shrinks_calls[of "exec_call c b" cs e] Cons.prems by (simp add: wf_exec_call)
    ultimately show ?thesis by auto
  qed
qed

lemma listenerCount_subs_of: "listenerCount e b = length (subs_of b e)"
  by (simp add: listenerCount_def subs_of_def)

lemma captured_subs_of: "wf b \<Longrightarrow> captured b e = (if e = ''*'' then [] else subs_of b e)"
  by (simp add: captured_def subs_of_def wf_def)

lemma ping_hyps:
  "wf ping_bus" "never_registers ping_sem ''ping''" "never_registers ping_sem ''*''"
  "convertible ping_sem"
  by (simp_all add: wf_def never_registers_def convertible_def run_defs ping_bus_def ping_sem_def)

lemma emit_frozen_trace:
  assumes "wf b" and "never_registers sem e" and "never_registers sem ''*''"
  shows "\<exists>r out st S W n m. emit sem e args b w = Some (r, out)
           \<and> trace r = S @ W
           \<and> (\<forall>x\<in>set S. inv_pass x = Specific \<and> inv_args x = args)
           \<and> (\<forall>x\<in>set W. inv_pass x = Wildcard \<and> inv_args x = JStr e # args)
           \<and> map inv_handler S = map handler (take n (captured b e))
           \<and> map inv_handler W = map handler (take m (subs_of (bus st) ''*''))
           \<and> st = fst (finish e (pass_over sem Specific args (captured b e) (start b w, [])))
           \<and> ((\<forall>v. out \<noteq> Uncaught v) \<longrightarrow>
                 map inv_handler S = map handler (captured b e)
                 \<and> map inv_handler W = map handler (subs_of (bus st) ''*'')
                 \<and> (\<forall>s\<in>set (captured b e). is_once s \<longrightarrow> Off e (handler s) \<in> set (effects r))
                 \<and> (\<forall>s\<in>set (subs_of (bus st) ''*''). is_once s \<longrightarrow> Off ''*'' (handler s) \<in> set (effects r)))
           \<and> (convertible sem \<longrightarrow> (\<forall>v. out \<noteq> Uncaught v))"
proof -
  let ?p1 = "pass_over sem Specific args (captured b e) (start b w, [])"
  let ?y1 = "finish e ?p1"
  let ?p2 = "pass_over sem Wildcard (JStr e # args) (subs_of (bus (fst ?y1)) ''*'') (fst ?y1, [])"
  let ?y2 = "finish ''*'' ?p2"
  let ?ws = "subs_of (bus (fst ?y1)) ''*''"
  from emit_frozen[OF assms, of args w] have
    em: "emit sem e args b w =
           Some (case snd ?y1 of
                   Some v \<Rightarrow> (fst ?y1, Uncaught v)
                 | None \<Rightarrow> (case snd ?y2 of
                               Some v \<Rightarrow> (fst ?y2, Uncaught v)
                             | None \<Rightarrow> (fst ?y2, settle e (errors (fst ?y2)))))"
    by simp
  from pass_over_trace[of sem Specific args "captured b e" "(start b w, [])"] obtain S n where
    all1: "trace (fst ?p1) = trace (fst (start b w, [] :: EventHandler list)) @ S
       \<and> (\<forall>t\<in>set S. inv_pass t = Specific \<and> inv_args t = args)
       \<and> map inv_handler S = map handler (take n (captured b e))
       \<and> (\<forall>tr. snd ?p1 = Inr tr \<longrightarrow>
             map inv_handler S = map handler (captured b e)
             \<and> tr = snd (start b w, [] :: EventHandler list) @ map handler (filter is_once (captured b e)))"
    by blast
  have S: "trace (fst ?p1) = S" "\<forall>t\<in>set S. inv_pass t = Specific \<and> inv_args t = args"
    "map inv_handler S = map handler (take n (captured b e))"
    "\<And>tr. snd ?p1 = Inr tr \<Longrightarrow> map inv_handler S = map handler (captured b e)"
    "\<And>tr. snd ?p1 = Inr tr \<Longrightarrow> tr = map handler (filter is_once (captured b e))"
    using all1[unfolded fst_conv snd_conv start_fields append_Nil] by blast+
  from pass_over_trace[of sem Wildcard "JStr e # args" ?ws "(fst ?y1, [])"] obtain W m where
    all2: "trace (fst ?p2) = trace (fst (fst ?y1, [] :: EventHandler list)) @ W
       \<and> (\<forall>t\<in>set W. inv_pass t = Wildcard \<and> inv_args t = JStr e # args)
       \<and> map inv_handler W = map handler (take m ?ws)
       \<and> (\<forall>tr. snd ?p2 = Inr tr \<longrightarrow>
             map inv_handler W = map handler ?ws
             \<and> tr = snd (fst ?y1, [] :: EventHandler list) @ map handler (filter is_once ?ws))"
    by blast
  have W: "trace (fst ?p2) = S @ W" "\<forall>t\<in>set W. inv_pass t = Wildcard \<and> inv_args t = JStr e # args"
    "map inv_handler W = map handler (take m ?ws)"
    "\<And>tr. snd ?p2 = Inr tr \<Longrightarrow> map inv_handler W = map handler ?ws"
    "\<And>tr. snd ?p2 = Inr tr \<Longrightarrow> tr = map handler (filter is_once ?ws)"
    using all2[unfolded fst_conv snd_conv finish_fields S(1) append_Nil] by blast+
  have conv1: "convertible sem \<Longrightarrow> \<exists>tr. snd ?p1 = Inr tr"
    using pass_over_convertible[of sem Specific args "captured b e" "(start b w, [])"] by simp
  have conv2: "convertible sem \<Longrightarrow> \<exists>tr. snd ?p2 = Inr tr"
    using pass_over_convertible[of sem Wildcard "JStr e # args" ?ws "(fst ?y1, [])"] by simp
  show ?thesis
  proof (cases "snd ?p1")
    case (Inl v)
    have em': "emit sem e args b w = Some (fst ?p1, Uncaught v)"
      using em Inl by (simp add: finish_def)
    show ?thesis
      by (intro exI[of _ "fst ?p1"] exI[of _ "Uncaught v"] exI[of _ "fst ?y1"] exI[of _ S] exI[of _ "[]"]
                exI[of _ n] exI[of _ 0])
         (use em' S Inl conv1 in auto)
  next
    case (Inr tr1)
    have tr1: "tr1 = map handler (filter is_once (captured b e))" by (rule S(5)[OF Inr])
    have full1: "map inv_handler S = map handler (captured b e)" by (rule S(4)[OF Inr])
    have y1: "snd ?y1 = None" using Inr by (simp add: finish_fields)
    have eff1: "effects (fst ?y1) = effects (fst ?p1) @ map (Off e) tr1"
      using Inr by (simp add: finish_fields)
    have ext: "\<exists>ds. effects (fst ?p2) = effects (fst ?y1) @ ds"
      using pass_over_extends[of sem Wildcard "JStr e # args" "(fst ?y1, [])" ?ws]
      unfolding extends_def by auto
    show ?thesis
    proof (cases "snd ?p2")
      case (Inl v)
      have em': "emit sem e args b w = Some (fst ?p2, Uncaught v)"
        using em y1 Inl by (simp add: finish_def)
      show ?thesis
        by (intro exI[of _ "fst ?p2"] exI[of _ "Uncaught v"] exI[of _ "fst ?y1"] exI[of _ S] exI[of _ W]
                  exI[of _ n] exI[of _ m])
           (use em' S(2,3) W(1,2,3) Inl conv2 in auto)
    next
      case (Inr tr2)
      have tr2: "tr2 = map handler (filter is_once ?ws)" by (rule W(5)[OF Inr])
      have full2: "map inv_handler W = map handler ?ws" by (rule W(4)[OF Inr])
      let ?r = "fst ?y2"
      have em': "emit sem e args b w = Some (?r, settle e (errors ?r))"
        using em y1 Inr by (simp add: finish_fields)
      have tr: "trace ?r = S @ W" by (simp add: finish_fields W(1))
      have eff2: "effects ?r = effects (fst ?p2) @ map (Off ''*'') tr2"
        using Inr by (simp add: finish_fields)
      have o1: "\<forall>s\<in>set (captured b e). is_once s \<longrightarrow> Off e (handler s) \<in> set (effects ?r)"
        using eff2 ext eff1 tr1 by auto
      have o2: "\<forall>s\<in>set ?ws. is_once s \<longrightarrow> Off ''*'' (handler s) \<in> set (effects ?r)"
        using eff2 tr2 by auto
      have nu: "\<forall>v. settle e (errors ?r) \<noteq> Uncaught v" by (simp add: settle_def)
      show ?thesis
        by (intro exI[of _ ?r] exI[of _ "settle e (errors ?r)"] exI[of _ "fst ?y1"] exI[of _ S] exI[of _ W]
                  exI[of _ n] exI[of _ m] conjI impI em' tr S(2) W(2) S(3) W(3) refl full1 full2 o1 o2 nu)
    qed
  qed
qed

lemma emit_frozen_own_pass:
  assumes "wf b" and "never_registers sem e" and "never_registers sem ''*''"
  shows "\<exists>r out. emit sem e args b w = Some (r, out)
           \<and> (\<exists>n. map inv_handler (filter (\<lambda>x. inv_pass x = own_pass e) (trace r))
                    = take n (map handler (subs_of b e)))
           \<and> ((\<forall>v. out \<noteq> Uncaught v) \<longrightarrow>
                 map inv_handler (filter (\<lambda>x. inv_pass x = own_pass e) (trace r)) = map handler (subs_of b e)
                 \<and> (\<forall>s\<in>set (subs_of b e). is_once s \<longrightarrow> Off e (handler s) \<in> set (effects r)))
           \<and> (convertible sem \<longrightarrow> (\<forall>v. out \<noteq> Uncaught v))
           \<and> (\<forall>x\<in>set (filter (\<lambda>x. inv_pass x = own_pass e) (trace r)).
                 inv_args x = (if e = ''*'' then JStr e # args else args))
           \<and> wf (bus r)
           \<and> (\<forall>h. Off e h \<in> set (effects r) \<longrightarrow> h \<notin> handler ` set (subs_of (bus r) e))"
proof -
  from emit_frozen_trace[OF assms, of args w] obtain r out st S W n m where
    1: "emit sem e args b w = Some (r, out)" and
    2: "trace r = S @ W"
       "\<forall>x\<in>set S. inv_pass x = Specific \<and> inv_args x = args"
       "\<forall>x\<in>set W. inv_pass x = Wildcard \<and> inv_args x = JStr e # args"
       "map inv_handler S = map handler (take n (captured b e))"
       "map inv_handler W = map handler (take m (subs_of (bus st) ''*''))" and
    st: "st = fst (finish e (pass_over sem Specific args (captured b e) (start b w, [])))" and
    3: "(\<forall>v. out \<noteq> Uncaught v) \<longrightarrow>
                 map inv_handler S = map handler (captured b e)
                 \<and> map inv_handler W = map handler (subs_of (bus st) ''*'')
                 \<and> (\<forall>s\<in>set (captured b e). is_once s \<longrightarrow> Off e (handler s) \<in> set (effects r))
                 \<and> (\<forall>s\<in>set (subs_of (bus st) ''*''). is_once s \<longrightarrow> Off ''*'' (handler s) \<in> set (effects r))" and
    4: "convertible sem \<longrightarrow> (\<forall>v. out \<noteq> Uncaught v)"
    by blast
  have f: "filter (\<lambda>x. inv_pass x = Specific) (trace r) = S"
          "filter (\<lambda>x. inv_pass x = Wildcard) (trace r) = W"
    using filter_pass_append[of S W] 2(1,2,3) by simp_all
  from emit_general[OF 1] have g: "bus r = exec_calls (effects r) b" "\<forall>c\<in>set (effects r). made_during sem c"
    by blast+
  have wfr: "wf (bus r)" using g(1) wf_exec_calls[OF assms(1)] by simp
  have nr: "\<forall>c\<in>set (effects r). \<not> registers_on e c"
    using g(2) never_registers_made[OF assms(2)] by blast
  have gone: "\<forall>h. Off e h \<in> set (effects r) \<longrightarrow> h \<notin> handler ` set (subs_of (bus r) e)"
    using off_stays_off[OF assms(1) nr] g(1) by simp
  have own: "(\<exists>n. map inv_handler (filter (\<lambda>x. inv_pass x = own_pass e) (trace r))
                    = take n (map handler (subs_of b e)))
           \<and> ((\<forall>v. out \<noteq> Uncaught v) \<longrightarrow>
                 map inv_handler (filter (\<lambda>x. inv_pass x = own_pass e) (trace r)) = map handler (subs_of b e)
                 \<and> (\<forall>s\<in>set (subs_of b e). is_once s \<longrightarrow> Off e (handler s) \<in> set (effects r)))
           \<and> (\<forall>x\<in>set (filter (\<lambda>x. inv_pass x = own_pass e) (trace r)).
                 inv_args x = (if e = ''*'' then JStr e # args else args))"
  proof (cases "e = ''*''")
    case True
    have cap: "captured b e = []" using assms(1) True by (simp add: captured_subs_of)
    have "st = start b w" unfolding st cap by (simp add: finish_def)
    then have bst: "bus st = b" by (simp add: start_fields)
    have p: "own_pass e = Wildcard" using True by (simp add: own_pass_def)
    have a: "\<exists>n. map inv_handler W = take n (map handler (subs_of b e))"
      using 2(5) True by (auto simp: bst take_map)
    have b: "(\<forall>v. out \<noteq> Uncaught v) \<longrightarrow>
                 map inv_handler W = map handler (subs_of b e)
                 \<and> (\<forall>s\<in>set (subs_of b e). is_once s \<longrightarrow> Off e (handler s) \<in> set (effects r))"
      using 3 True by (simp add: bst)
    have c: "\<forall>x\<in>set W. inv_args x = (if e = ''*'' then JStr e # args else args)"
      using 2(3) True by simp
    show ?thesis unfolding p f(2) using a b c by blast
  next
    case False
    then have cap: "captured b e = subs_of b e" using captured_subs_of[OF assms(1)] by simp
    have p: "own_pass e = Specific" using False by (simp add: own_pass_def)
    have a: "\<exists>n. map inv_handler S = take n (map handler (subs_of b e))"
      using 2(4) by (auto simp: cap take_map)
    have b: "(\<forall>v. out \<noteq> Uncaught v) \<longrightarrow>
                 map inv_handler S = map handler (subs_of b e)
                 \<and> (\<forall>s\<in>set (subs_of b e). is_once s \<longrightarrow> Off e (handler s) \<in> set (effects r))"
      using 3 by (simp add: cap)
    have c: "\<forall>x\<in>set S. inv_args x = (if e = ''*'' then JStr e # args else args)"
      using 2(2) False by simp
    show ?thesis unfolding p f(1) using a b c by blast
  qed
  show ?thesis
    by (intro exI[of _ r] exI[of _ out] conjI 1 own[THEN conjunct1] own[THEN conjunct2, THEN conjunct1]
              own[THEN conjunct2, THEN conjunct2] 4 wfr gone)
qed

lemma count_by_handler:
  assumes "map inv_handler T = map handler subs"
  shows "length (filter (\<lambda>x. inv_handler x = h) T) = length (filter (\<lambda>s. handler s = h) subs)"
proof -
  have "length (filter (\<lambda>x. inv_handler x = h) T) = length (filter (\<lambda>y. y = h) (map inv_handler T))"
    by (simp add: filter_map comp_def)
  also have "\<dots> = length (filter (\<lambda>y. y = h) (map handler subs))" by (simp add: assms)
  also have "\<dots> = length (filter (\<lambda>s. handler s = h) subs)" by (simp add: filter_map comp_def)
  finally show ?thesis .
qed

lemma once_prunes_by_handler:
  assumes "wf b" and "never_registers sem e" and "never_registers sem ''*''" and "convertible sem"
    and "s \<in> set (subs_of b e)" and "is_once s" and "handler s = h"
  shows "\<exists>r out. emit sem e args b w = Some (r, out)
           \<and> (\<forall>v. out \<noteq> Uncaught v)
           \<and> length (filter (\<lambda>x. inv_handler x = h) (filter (\<lambda>x. inv_pass x = own_pass e) (trace r)))
               = length (filter (\<lambda>s. handler s = h) (subs_of b e))
           \<and> h \<notin> handler ` set (subs_of (bus r) e)"
proof -
  from emit_frozen_own_pass[OF assms(1-3), of args w] obtain r out where
    1: "emit sem e args b w = Some (r, out)" and
    2: "(\<forall>v. out \<noteq> Uncaught v) \<longrightarrow>
                 map inv_handler (filter (\<lambda>x. inv_pass x = own_pass e) (trace r)) = map handler (subs_of b e)
                 \<and> (\<forall>s\<in>set (subs_of b e). is_once s \<longrightarrow> Off e (handler s) \<in> set (effects r))" and
    3: "convertible sem \<longrightarrow> (\<forall>v. out \<noteq> Uncaught v)" and
    4: "\<forall>h. Off e h \<in> set (effects r) \<longrightarrow> h \<notin> handler ` set (subs_of (bus r) e)"
    by blast
  from 3 assms(4) have nu: "\<forall>v. out \<noteq> Uncaught v" by blast
  with 2 have eq: "map inv_handler (filter (\<lambda>x. inv_pass x = own_pass e) (trace r)) = map handler (subs_of b e)"
    and offs: "\<forall>s\<in>set (subs_of b e). is_once s \<longrightarrow> Off e (handler s) \<in> set (effects r)"
    by blast+
  from offs assms(5-7) have "Off e h \<in> set (effects r)" by blast
  with 4 have "h \<notin> handler ` set (subs_of (bus r) e)" by blast
  with 1 nu count_by_handler[OF eq, of h] show ?thesis by blast
qed





lemma tick_calls: "c \<in> set (fst (tick e T h dt wt)) \<Longrightarrow> c = Off e h"
  by (auto simp: tick_def timer_fires_def split: option.splits if_splits)

lemma never_registers_with_waiter:
  assumes "never_registers sem e'"
  shows "never_registers (with_waiter e T h lapse sem) e'"
  unfolding never_registers_def
proof (intro allI impI)
  fix g args ww b c
  assume c: "c \<in> set (fst (with_waiter e T h lapse sem g args ww b))"
  obtain wt w where ww: "ww = (wt, w)" by (cases ww)
  obtain cs t w' where s: "sem g args w b = (cs, t, w')" by (cases "sem g args w b")
  obtain ds wt' where d: "tick e T h (lapse g args w b) wt = (ds, wt')"
    by (cases "tick e T h (lapse g args w b) wt")
  from c have "c \<in> set cs \<or> c \<in> set ds"
    by (auto simp: with_waiter_def ww s d split: if_splits)
  then show "\<not> registers_on e' c"
  proof
    assume "c \<in> set cs"
    then have "c \<in> set (fst (sem g args w b))" by (simp add: s)
    with assms show ?thesis unfolding never_registers_def by blast
  next
    assume "c \<in> set ds"
    then have "c = Off e h" using tick_calls[of c e T h "lapse g args w b" wt] by (simp add: d)
    then show ?thesis by simp
  qed
qed

lemma convertible_with_waiter:
  assumes "convertible sem"
  shows "convertible (with_waiter e T h lapse sem)"
  unfolding convertible_def
proof (intro allI impI)
  fix g args ww b v
  assume v: "fst (snd (with_waiter e T h lapse sem g args ww b)) = Some v"
  obtain wt w where ww: "ww = (wt, w)" by (cases ww)
  obtain cs t w' where s: "sem g args w b = (cs, t, w')" by (cases "sem g args w b")
  obtain ds wt' where d: "tick e T h (lapse g args w b) wt = (ds, wt')"
    by (cases "tick e T h (lapse g args w b) wt")
  from v have "fst (snd (sem g args w b)) = Some v"
    by (auto simp: with_waiter_def ww s d split: if_splits)
  with assms show "\<exists>err. to_Error v = Inr err" unfolding convertible_def by blast
qed

lemma waiter_invoke:
  "fst (world (fst (invoke (with_waiter e T h lapse sem) k sub args st))) =
     (if handler sub = h then waitFor_handler args (fst (world st))
      else if lapse (handler sub) args (snd (world st)) (bus st) = 0 then fst (world st)
      else snd (tick e T h (lapse (handler sub) args (snd (world st)) (bus st)) (fst (world st))))"
  by (simp add: world_invoke with_waiter_def split: prod.splits)

lemma waitFor_handler_settled:
  "result wt \<noteq> Pending \<Longrightarrow> timer wt = None \<Longrightarrow> waitFor_handler args wt = wt"
  by (cases "result wt") (simp_all add: waitFor_handler_def resolve_def)

lemma tick_settled: "timer wt = None \<Longrightarrow> tick e T h dt wt = ([], wt)"
  by (simp add: tick_def)

lemma waiter_stays_settled:
  assumes "result wt \<noteq> Pending" and "timer wt = None"
  shows "fst (world (fst x)) = wt \<Longrightarrow>
         fst (world (fst (pass_over (with_waiter e T h lapse sem) k args subs x))) = wt"
proof (induction subs arbitrary: x)
  case Nil
  then show ?case by simp
next
  case (Cons sub subs)
  obtain st' ex where inv: "invoke (with_waiter e T h lapse sem) k sub args (fst x) = (st', ex)"
    by (cases "invoke (with_waiter e T h lapse sem) k sub args (fst x)")
  have w': "fst (world st') = wt"
    using waiter_invoke[of e T h lapse sem k sub args "fst x"] Cons.prems assms
    by (simp add: inv waitFor_handler_settled tick_settled)
  show ?case
  proof (cases ex)
    case (Some v)
    then show ?thesis using w' by (simp add: inv)
  next
    case None
    have "fst (world (fst (pass_over (with_waiter e T h lapse sem) k args subs
              (st', if is_once sub then snd x @ [handler sub] else snd x)))) = wt"
      by (rule Cons.IH) (simp add: w')
    then show ?thesis by (simp add: inv None)
  qed
qed

lemma waiter_gets_settled:
  assumes "convertible sem"
  shows "fst (world (fst x)) = \<lparr>result = Pending, timer = Some left\<rparr> \<Longrightarrow> h \<in> handler ` set subs \<Longrightarrow>
         fst (world (fst (pass_over (with_waiter e T h prompt sem) k args subs x)))
           = \<lparr>result = Fulfilled args, timer = None\<rparr>"
proof (induction subs arbitrary: x)
  case Nil
  then show ?case by simp
next
  case (Cons sub subs)
  let ?sem = "with_waiter e T h prompt sem"
  note cv = convertible_with_waiter[OF assms, of e T h prompt]
  let ?x' = "(fst (invoke ?sem k sub args (fst x)),
              if is_once sub then snd x @ [handler sub] else snd x)"
  have step: "pass_over ?sem k args (sub # subs) x = pass_over ?sem k args subs ?x'"
    by (rule pass_over_Cons_convertible[OF cv])
  show ?case
  proof (cases "handler sub = h")
    case True
    have "fst (world (fst ?x')) = \<lparr>result = Fulfilled args, timer = None\<rparr>"
      by (simp add: waiter_invoke True Cons.prems(1) waitFor_handler_def resolve_def)
    then have "fst (world (fst (pass_over ?sem k args subs ?x')))
                 = \<lparr>result = Fulfilled args, timer = None\<rparr>"
      by (intro waiter_stays_settled) simp_all
    then show ?thesis by (simp only: step)
  next
    case False
    with Cons.prems(2) have mem: "h \<in> handler ` set subs" by auto
    have "fst (world (fst ?x')) = \<lparr>result = Pending, timer = Some left\<rparr>"
      by (simp add: waiter_invoke False Cons.prems(1) prompt_def)
    from Cons.IH[OF this mem] show ?thesis by (simp only: step)
  qed
qed

lemma waiter_race:
  assumes "convertible sem"
  shows "fst (world (fst x)) = \<lparr>result = Pending, timer = Some left\<rparr> \<Longrightarrow> h \<in> handler ` set subs \<Longrightarrow>
         fst (world (fst (pass_over (with_waiter e T h lapse sem) k args subs x)))
           \<in> {\<lparr>result = Fulfilled args, timer = None\<rparr>,
               \<lparr>result = Failed (JError (timeout_message e T)), timer = None\<rparr>}"
proof (induction subs arbitrary: x left)
  case Nil
  then show ?case by simp
next
  case (Cons sub subs)
  let ?sem = "with_waiter e T h lapse sem"
  note cv = convertible_with_waiter[OF assms, of e T h lapse]
  let ?x' = "(fst (invoke ?sem k sub args (fst x)),
              if is_once sub then snd x @ [handler sub] else snd x)"
  let ?dt = "lapse (handler sub) args (snd (world (fst x))) (bus (fst x))"
  have step: "pass_over ?sem k args (sub # subs) x = pass_over ?sem k args subs ?x'"
    by (rule pass_over_Cons_convertible[OF cv])
  show ?case
  proof (cases "handler sub = h")
    case True
    have "fst (world (fst ?x')) = \<lparr>result = Fulfilled args, timer = None\<rparr>"
      by (simp add: waiter_invoke True Cons.prems(1) waitFor_handler_def resolve_def)
    then have "fst (world (fst (pass_over ?sem k args subs ?x')))
                 = \<lparr>result = Fulfilled args, timer = None\<rparr>"
      by (intro waiter_stays_settled) simp_all
    then show ?thesis by (simp only: step) simp
  next
    case False
    with Cons.prems(2) have mem: "h \<in> handler ` set subs" by auto
    show ?thesis
    proof (cases "?dt = 0 \<or> ?dt < left")
      case True
      then have "fst (world (fst ?x')) = \<lparr>result = Pending, timer = Some (left - ?dt)\<rparr>"
        by (auto simp: waiter_invoke False Cons.prems(1) tick_def)
      from Cons.IH[OF this mem] show ?thesis by (simp only: step)
    next
      case fired: False
      then have "fst (world (fst ?x')) = \<lparr>result = Failed (JError (timeout_message e T)), timer = None\<rparr>"
        by (auto simp: waiter_invoke False Cons.prems(1) tick_def timer_fires_def reject_def)
      then have "fst (world (fst (pass_over ?sem k args subs ?x')))
                 = \<lparr>result = Failed (JError (timeout_message e T)), timer = None\<rparr>"
        by (intro waiter_stays_settled) simp_all
      then show ?thesis by (simp only: step) simp
    qed
  qed
qed

lemma emit_settles_waiter:
  assumes "wf b" and "e \<noteq> ''*''" and "never_registers sem e" and "never_registers sem ''*''"
    and "convertible sem" and "h \<in> handler ` set (subs_of b e)"
  shows "\<exists>r out. emit (with_waiter e T h lapse sem) e args b (\<lparr>result = Pending, timer = Some left\<rparr>, w) = Some (r, out)
           \<and> fst (world r) \<in> {\<lparr>result = Fulfilled args, timer = None\<rparr>,
                               \<lparr>result = Failed (JError (timeout_message e T)), timer = None\<rparr>}"
proof -
  let ?sem = "with_waiter e T h lapse sem"
  let ?w = "(\<lparr>result = Pending, timer = Some left\<rparr>, w)"
  let ?p1 = "pass_over ?sem Specific args (captured b e) (start b ?w, [])"
  let ?y1 = "finish e ?p1"
  let ?p2 = "pass_over ?sem Wildcard (JStr e # args) (subs_of (bus (fst ?y1)) ''*'') (fst ?y1, [])"
  let ?y2 = "finish ''*'' ?p2"
  let ?A = "\<lparr>result = Fulfilled args, timer = None\<rparr>"
  let ?B = "\<lparr>result = Failed (JError (timeout_message e T)), timer = None\<rparr>"
  note cv = convertible_with_waiter[OF assms(5), of e T h lapse]
  from emit_frozen[OF assms(1) never_registers_with_waiter[OF assms(3)] never_registers_with_waiter[OF assms(4)],
      of e T h lapse args ?w]
  have em: "emit ?sem e args b ?w =
           Some (case snd ?y1 of
                   Some v \<Rightarrow> (fst ?y1, Uncaught v)
                 | None \<Rightarrow> (case snd ?y2 of
                               Some v \<Rightarrow> (fst ?y2, Uncaught v)
                             | None \<Rightarrow> (fst ?y2, settle e (errors (fst ?y2)))))"
    by simp
  have s1: "snd ?y1 = None"
    using pass_over_convertible[OF cv, of Specific args "captured b e" "(start b ?w, [])"]
    by (simp add: finish_fields)
  have s2: "snd ?y2 = None"
    using pass_over_convertible[OF cv, of Wildcard "JStr e # args" "subs_of (bus (fst ?y1)) ''*''" "(fst ?y1, [])"]
    by (simp add: finish_fields)
  have em': "emit ?sem e args b ?w = Some (fst ?y2, settle e (errors (fst ?y2)))"
    using em by (simp add: s1 s2)
  have cap: "h \<in> handler ` set (captured b e)"
    using assms(1,2,6) by (simp add: captured_subs_of)
  have "fst (world (fst ?p1)) \<in> {?A, ?B}"
    by (rule waiter_race[OF assms(5) _ cap]) (simp add: start_fields)
  then have "fst (world (fst ?y1)) = ?A \<or> fst (world (fst ?y1)) = ?B"
    by (simp add: finish_fields)
  then have "fst (world (fst ?p2)) = ?A \<or> fst (world (fst ?p2)) = ?B"
  proof
    assume a: "fst (world (fst ?y1)) = ?A"
    have "fst (world (fst ?p2)) = ?A" by (rule waiter_stays_settled) (simp_all add: a)
    then show ?thesis by simp
  next
    assume a: "fst (world (fst ?y1)) = ?B"
    have "fst (world (fst ?p2)) = ?B" by (rule waiter_stays_settled) (simp_all add: a)
    then show ?thesis by simp
  qed
  then have "fst (world (fst ?y2)) \<in> {?A, ?B}"
    by (simp add: finish_fields)
  with em' show ?thesis by blast
qed

lemma elapse_add: "elapse e T h (d1 + d2) s = elapse e T h d2 (elapse e T h d1 s)"
proof (cases "timer (snd s)")
  case None
  then show ?thesis by (simp add: elapse_def tick_def)
next
  case (Some left)
  show ?thesis
  proof (cases "d1 < left")
    case True
    have "Some (left - d1 - d2) = Some (left - (d1 + d2))" by simp
    then show ?thesis using Some True
      by (auto simp: elapse_def tick_def timer_fires_def)
  next
    case False
    then show ?thesis using Some
      by (auto simp: elapse_def tick_def timer_fires_def)
  qed
qed

lemma waitFor_registers:
  assumes "wf b"
  shows "wf (fst (waitFor e t h b))"
    and "h \<in> handler ` set (subs_of (fst (waitFor e t h b)) e)"
    and "snd (waitFor e t h b) = \<lparr>result = Pending, timer = Some (millis t)\<rparr>"
proof -
  show "wf (fst (waitFor e t h b))" using assms by (simp add: waitFor_def wf_once)
  have "\<lparr>handler = h, priority = 0, is_once = True\<rparr> \<in> set (subs_of (fst (waitFor e t h b)) e)"
    using assms by (simp add: waitFor_def subs_of_once)
  then show "h \<in> handler ` set (subs_of (fst (waitFor e t h b)) e)" by force
  show "snd (waitFor e t h b) = \<lparr>result = Pending, timer = Some (millis t)\<rparr>"
    by (simp add: waitFor_def)
qed

lemma emit_resolves_waiter:
  assumes "wf b" and "e \<noteq> ''*''" and "never_registers sem e" and "never_registers sem ''*''"
    and "convertible sem" and "h \<in> handler ` set (subs_of b e)"
  shows "\<exists>r out. emit (with_waiter e T h prompt sem) e args b (\<lparr>result = Pending, timer = Some left\<rparr>, w) = Some (r, out)
           \<and> (\<forall>v. out \<noteq> Uncaught v)
           \<and> fst (world r) = \<lparr>result = Fulfilled args, timer = None\<rparr>
           \<and> wf (bus r)"
proof -
  let ?sem = "with_waiter e T h prompt sem"
  let ?w = "(\<lparr>result = Pending, timer = Some left\<rparr>, w)"
  let ?p1 = "pass_over ?sem Specific args (captured b e) (start b ?w, [])"
  let ?y1 = "finish e ?p1"
  let ?p2 = "pass_over ?sem Wildcard (JStr e # args) (subs_of (bus (fst ?y1)) ''*'') (fst ?y1, [])"
  let ?y2 = "finish ''*'' ?p2"
  note cv = convertible_with_waiter[OF assms(5), of e T h prompt]
  from emit_frozen[OF assms(1) never_registers_with_waiter[OF assms(3)] never_registers_with_waiter[OF assms(4)],
      of e T h prompt args ?w]
  have wf2: "wf (bus (fst ?y2))" by simp
  from emit_frozen[OF assms(1) never_registers_with_waiter[OF assms(3)] never_registers_with_waiter[OF assms(4)],
      of e T h prompt args ?w]
  have em: "emit ?sem e args b ?w =
           Some (case snd ?y1 of
                   Some v \<Rightarrow> (fst ?y1, Uncaught v)
                 | None \<Rightarrow> (case snd ?y2 of
                               Some v \<Rightarrow> (fst ?y2, Uncaught v)
                             | None \<Rightarrow> (fst ?y2, settle e (errors (fst ?y2)))))"
    by simp
  have s1: "snd ?y1 = None"
    using pass_over_convertible[OF cv, of Specific args "captured b e" "(start b ?w, [])"]
    by (simp add: finish_fields)
  have s2: "snd ?y2 = None"
    using pass_over_convertible[OF cv, of Wildcard "JStr e # args" "subs_of (bus (fst ?y1)) ''*''" "(fst ?y1, [])"]
    by (simp add: finish_fields)
  have em': "emit ?sem e args b ?w = Some (fst ?y2, settle e (errors (fst ?y2)))"
    using em by (simp add: s1 s2)
  have cap: "h \<in> handler ` set (captured b e)"
    using assms(1,2,6) by (simp add: captured_subs_of)
  have "fst (world (fst ?p1)) = \<lparr>result = Fulfilled args, timer = None\<rparr>"
    by (rule waiter_gets_settled[OF assms(5) _ cap]) (simp add: start_fields)
  then have "fst (world (fst ?y1)) = \<lparr>result = Fulfilled args, timer = None\<rparr>"
    by (simp add: finish_fields)
  then have "fst (world (fst ?p2)) = \<lparr>result = Fulfilled args, timer = None\<rparr>"
    by (intro waiter_stays_settled) simp_all
  then have "fst (world (fst ?y2)) = \<lparr>result = Fulfilled args, timer = None\<rparr>"
    by (simp add: finish_fields)
  moreover have "\<forall>v. settle e (errors (fst ?y2)) \<noteq> Uncaught v" by (simp add: settle_def)
  ultimately show ?thesis using em' wf2 by blast
qed

lemma emit_keeps_settled:
  assumes "wf b" and "never_registers sem e" and "never_registers sem ''*''"
    and "result wt \<noteq> Pending" and "timer wt = None"
  shows "\<exists>r out. emit (with_waiter e T h lapse sem) e args b (wt, w) = Some (r, out) \<and> fst (world r) = wt"
proof -
  let ?sem = "with_waiter e T h lapse sem"
  let ?p1 = "pass_over ?sem Specific args (captured b e) (start b (wt, w), [])"
  let ?y1 = "finish e ?p1"
  let ?p2 = "pass_over ?sem Wildcard (JStr e # args) (subs_of (bus (fst ?y1)) ''*'') (fst ?y1, [])"
  let ?y2 = "finish ''*'' ?p2"
  from emit_frozen[OF assms(1) never_registers_with_waiter[OF assms(2)] never_registers_with_waiter[OF assms(3)],
      of e T h lapse args "(wt, w)"]
  have em: "emit ?sem e args b (wt, w) =
           Some (case snd ?y1 of
                   Some v \<Rightarrow> (fst ?y1, Uncaught v)
                 | None \<Rightarrow> (case snd ?y2 of
                               Some v \<Rightarrow> (fst ?y2, Uncaught v)
                             | None \<Rightarrow> (fst ?y2, settle e (errors (fst ?y2)))))"
    by simp
  have "fst (world (fst ?p1)) = wt"
    by (rule waiter_stays_settled[OF assms(4,5)]) (simp add: start_fields)
  then have w1: "fst (world (fst ?y1)) = wt" by (simp add: finish_fields)
  then have "fst (world (fst ?p2)) = wt"
    by (intro waiter_stays_settled[OF assms(4,5)]) simp
  then have w2: "fst (world (fst ?y2)) = wt" by (simp add: finish_fields)
  show ?thesis using em w1 w2 by (auto split: option.splits)
qed

section \<open>The claims\<close>

subsection \<open>Claim C1\<close>

text \<open>
  Claim C1, as amended. A handler registered on \<open>e\<close> by \<^verbatim>\<open>on\<close> and by \<^verbatim>\<open>once\<close>, in either
  order, has two subscriptions there, side by side. Subscriptions are removed by
  handler reference only: when no handler registers on \<open>e\<close> or on the wildcard name while
  it runs and none throws a value that the \<^verbatim>\<open>catch\<close> block cannot convert, the next
  \<^verbatim>\<open>emit(e)\<close> invokes the handler once for each of its subscriptions on \<open>e\<close> and then prunes
  the handler of the once-marked one with \<^verbatim>\<open>off\<close>, after which the handler has no
  subscription on \<open>e\<close> at all.
\<close>

theorem on_and_once_same_handler:
  assumes "wf b" and "never_registers sem e" and "never_registers sem ''*''" and "convertible sem"
    and "b' = exec_calls [On e h p, Once e h q] b \<or> b' = exec_calls [Once e h q, On e h p] b"
  shows "listenerCount e b' = listenerCount e b + 2
       \<and> \<lparr>handler = h, priority = p, is_once = False\<rparr> \<in> set (subs_of b' e)
       \<and> \<lparr>handler = h, priority = q, is_once = True\<rparr> \<in> set (subs_of b' e)
       \<and> (\<exists>r out. emit sem e args b' w = Some (r, out)
             \<and> (\<forall>v. out \<noteq> Uncaught v)
             \<and> length (filter (\<lambda>x. inv_handler x = h) (filter (\<lambda>x. inv_pass x = own_pass e) (trace r)))
                 = length (filter (\<lambda>s. handler s = h) (subs_of b' e))
             \<and> 2 \<le> length (filter (\<lambda>s. handler s = h) (subs_of b' e))
             \<and> h \<notin> handler ` set (subs_of (bus r) e))"
proof -
  let ?on = "\<lparr>handler = h, priority = p, is_once = False\<rparr>"
  let ?once = "\<lparr>handler = h, priority = q, is_once = True\<rparr>"
  have wf': "wf b'" using assms(1,5) wf_exec_calls by blast
  have sub: "subs_of b' e = sort_key (\<lambda>x. - priority x) (sort_key (\<lambda>x. - priority x) (subs_of b e @ [?on]) @ [?once])
           \<or> subs_of b' e = sort_key (\<lambda>x. - priority x) (sort_key (\<lambda>x. - priority x) (subs_of b e @ [?once]) @ [?on])"
    using assms(1,5) by (auto simp: subs_of_on subs_of_once wf_on wf_once)
  have cnt: "listenerCount e b' = listenerCount e b + 2"
    using sub by (auto simp: listenerCount_subs_of)
  have mem: "?on \<in> set (subs_of b' e)" "?once \<in> set (subs_of b' e)"
    using sub by auto
  have two: "2 \<le> length (filter (\<lambda>s. handler s = h) (subs_of b' e))"
    using sub by (auto simp: filter_sort)
  have "is_once ?once" "handler ?once = h" by simp_all
  from once_prunes_by_handler[OF wf' assms(2,3,4) mem(2) this, of args w]
  show ?thesis using cnt mem two by blast
qed

theorem on_and_once_same_handler_witness:
  "wf ping_bus \<and> never_registers ping_sem ''ping'' \<and> never_registers ping_sem ''*'' \<and> convertible ping_sem
   \<and> listenerCount ''ping'' (exec_calls [On ''ping'' 7 0, Once ''ping'' 7 0] ping_bus)
       = listenerCount ''ping'' ping_bus + 2
   \<and> \<lparr>handler = 7, priority = 0, is_once = False\<rparr>
        \<in> set (subs_of (exec_calls [On ''ping'' 7 0, Once ''ping'' 7 0] ping_bus) ''ping'')
   \<and> \<lparr>handler = 7, priority = 0, is_once = True\<rparr>
        \<in> set (subs_of (exec_calls [On ''ping'' 7 0, Once ''ping'' 7 0] ping_bus) ''ping'')
   \<and> (\<exists>r out. emit ping_sem ''ping'' [] (exec_calls [On ''ping'' 7 0, Once ''ping'' 7 0] ping_bus) () = Some (r, out)
         \<and> out = AggregateError [JError ''x''] ''1 handler(s) threw during \"ping\"''
         \<and> length (filter (\<lambda>x. inv_handler x = 7) (filter (\<lambda>x. inv_pass x = own_pass ''ping'') (trace r)))
             = length (filter (\<lambda>s. handler s = 7) (subs_of (exec_calls [On ''ping'' 7 0, Once ''ping'' 7 0] ping_bus) ''ping''))
         \<and> 2 \<le> length (filter (\<lambda>s. handler s = 7) (subs_of (exec_calls [On ''ping'' 7 0, Once ''ping'' 7 0] ping_bus) ''ping''))
         \<and> 7 \<notin> handler ` set (subs_of (bus r) ''ping'')
         \<and> map inv_handler (trace r) = [0, 1, 7, 7, 2]
         \<and> map handler (subs_of (bus r) ''ping'') = [0, 1])"
proof -
  have ev: "map_option (map inv_handler \<circ> trace \<circ> fst)
              (emit ping_sem ''ping'' [] (exec_calls [On ''ping'' 7 0, Once ''ping'' 7 0] ping_bus) ())
            = Some [0, 1, 7, 7, 2]"
    "map_option ((\<lambda>b. map handler (subs_of b ''ping'')) \<circ> bus \<circ> fst)
              (emit ping_sem ''ping'' [] (exec_calls [On ''ping'' 7 0, Once ''ping'' 7 0] ping_bus) ())
            = Some [0, 1]"
    "map_option snd
              (emit ping_sem ''ping'' [] (exec_calls [On ''ping'' 7 0, Once ''ping'' 7 0] ping_bus) ())
            = Some (AggregateError [JError ''x''] ''1 handler(s) threw during \"ping\"'')"
    by (simp_all add: run_defs ping_bus_def ping_sem_def)
  from on_and_once_same_handler[OF ping_hyps, of "exec_calls [On ''ping'' 7 0, Once ''ping'' 7 0] ping_bus" 7 0 0 "[]" "()"]
    ev ping_hyps
  show ?thesis by auto
qed

text \<open>
  Claim C1 as stated fails: with handler 0 registered on \<^verbatim>\<open>"e"\<close> by \<^verbatim>\<open>on\<close> and by \<^verbatim>\<open>once\<close>,
  one emission invokes it twice and leaves no subscription on \<^verbatim>\<open>"e"\<close>: the \<^verbatim>\<open>on\<close>
  subscription does not remain, and the next emission invokes nothing.
\<close>

theorem on_and_once_counterexample:
  "map_option (map inv_handler \<circ> trace \<circ> fst)
     (emit silent ''e'' [] (exec_calls [On ''e'' 0 0, Once ''e'' 0 0] new_EventBus) ()) = Some [0, 0]
   \<and> map_option (listenerCount ''e'' \<circ> bus \<circ> fst)
     (emit silent ''e'' [] (exec_calls [On ''e'' 0 0, Once ''e'' 0 0] new_EventBus) ()) = Some 0
   \<and> map_option (map inv_handler \<circ> trace \<circ> fst)
     (emit_again silent ''e'' []
        (emit silent ''e'' [] (exec_calls [On ''e'' 0 0, Once ''e'' 0 0] new_EventBus) ())) = Some []"
  by (simp add: run_defs silent_def emit_again_def)

subsection \<open>Claim C2\<close>

text \<open>
  Claim C2 does not hold of the code. \<^verbatim>\<open>on\<close> pushes onto the stored array and sorts it in
  place, and the loop of \<^verbatim>\<open>emit\<close> walks that same array. With handler 0 alone on
  \<^verbatim>\<open>"e"\<close>: if it registers handler 1 at its own priority, the running pass goes on to
  invoke handler 1; if it registers handler 1 at a higher priority, the sort moves
  handler 0 one place up and the running pass invokes handler 0 a second time.
\<close>

theorem registration_reaches_running_pass:
  "map_option (map inv_handler \<circ> trace \<circ> fst)
     (emit late_subscriber ''e'' [] (snd (on ''e'' 0 0 new_EventBus)) ()) = Some [0, 1]
   \<and> map_option (map inv_handler \<circ> trace \<circ> fst)
     (emit early_subscriber ''e'' [] (snd (on ''e'' 0 0 new_EventBus)) ()) = Some [0, 0]"
  by (simp add: run_defs late_subscriber_def early_subscriber_def)

subsection \<open>Claim C3\<close>

text \<open>
  Claim C3 does not hold of the code. \<^verbatim>\<open>off\<close> stores a new array and leaves the one being
  walked as it is: on the bus of the scenario, when handler 0 (priority 10) unsubscribes
  handler 1 (priority 1) from \<^verbatim>\<open>"ping"\<close>, the pass in progress still invokes handler 1, and
  the next emission does not. But the conversion \<^verbatim>\<open>new Error(String(err))\<close> stands unguarded
  in the \<^verbatim>\<open>catch\<close> block, so a handler that throws an object which \<^verbatim>\<open>String\<close> cannot convert
  ends the emission there and then. When handler 0 unsubscribes handler 1 and throws such
  an object, the pass, begun on the sequence \<open>[0, 1]\<close>, invokes handler 0 only, \<^verbatim>\<open>emit\<close>
  rejects with the \<^verbatim>\<open>TypeError\<close>, and handler 1, which was in the sequence when the pass
  began, is not invoked in it.
\<close>

theorem unsubscribed_handler_missed_after_throw:
  "map handler (captured ping_bus ''ping'') = [0, 1]
   \<and> map_option (map inv_handler \<circ> trace \<circ> fst) (emit unsubscriber ''ping'' [] ping_bus ()) = Some [0, 1, 2]
   \<and> map_option (map inv_handler \<circ> trace \<circ> fst)
       (emit_again unsubscriber ''ping'' [] (emit unsubscriber ''ping'' [] ping_bus ())) = Some [0, 2]
   \<and> map_option (map inv_handler \<circ> trace \<circ> fst) (emit unsubscribing_thrower ''ping'' [] ping_bus ()) = Some [0]
   \<and> map_option snd (emit unsubscribing_thrower ''ping'' [] ping_bus ())
       = Some (Uncaught (JError ''Cannot convert object to primitive value''))"
  by (simp add: run_defs ping_bus_def unsubscriber_def unsubscribing_thrower_def bare_object_def emit_again_def)

subsection \<open>Claim C4\<close>

text \<open>
  Claim C4 does not hold of the code: the handlers of the event need not run in priority
  order, nor all of them before the wildcard handlers. Registration sorts the stored array
  in place while the loop of \<^verbatim>\<open>emit\<close> walks it by index. With handler 0 at priority 9 and
  handler 1 at priority 5 on \<^verbatim>\<open>"e"\<close>, handler 4 on the wildcard name, and handler 1
  registering handlers 2 and 3 on \<^verbatim>\<open>"e"\<close> at priority 10 the first time it runs, the array
  becomes \<open>[2, 3, 0, 1]\<close> while the loop stands at index 1. The first loop invokes handler
  0, handler 1, handler 0 again and handler 1 again, that is priorities 9, 5, 9, 5; then the
  wildcard handler runs, and handlers 2 and 3, subscribed to \<^verbatim>\<open>"e"\<close> with the highest
  priority, have not run.
\<close>

theorem registration_breaks_priority_order:
  "map (\<lambda>s. (handler s, priority s)) (subs_of (exec_calls [On ''e'' 0 9, On ''e'' 1 5, On ''*'' 4 0] new_EventBus) ''e'')
     = [(0, 9), (1, 5)]
   \<and> map_option (map (\<lambda>x. (inv_pass x, inv_handler x)) \<circ> trace \<circ> fst)
       (emit double_subscriber ''e'' [] (exec_calls [On ''e'' 0 9, On ''e'' 1 5, On ''*'' 4 0] new_EventBus) ())
     = Some [(Specific, 0), (Specific, 1), (Specific, 0), (Specific, 1), (Wildcard, 4)]
   \<and> map_option ((\<lambda>b. map (\<lambda>s. (handler s, priority s)) (subs_of b ''e'')) \<circ> bus \<circ> fst)
       (emit double_subscriber ''e'' [] (exec_calls [On ''e'' 0 9, On ''e'' 1 5, On ''*'' 4 0] new_EventBus) ())
     = Some [(2, 10), (3, 10), (0, 9), (1, 5)]"
  by (simp add: run_defs double_subscriber_def)

subsection \<open>Claim C5\<close>

text \<open>
  Claim C5 does not hold of the code, in two ways. First, registration during the
  emission: handler 0, alone on \<^verbatim>\<open>"e"\<close>, throws an \<^verbatim>\<open>Error\<close> and the first time registers
  handler 1 at a higher priority; the sort moves handler 0 up, the pass invokes it a
  second time and never invokes handler 1, and \<^verbatim>\<open>emit\<close> rejects with two failures and the
  message \<^verbatim>\<open>2 handler(s) threw during "e"\<close> for one failing subscription. Second, a thrown
  value that \<^verbatim>\<open>String\<close> cannot convert: on the bus of the scenario with handler 0 throwing
  such an object, the \<^verbatim>\<open>catch\<close> block itself throws, handlers 1 and 2 are not invoked, and
  \<^verbatim>\<open>emit\<close> rejects with the \<^verbatim>\<open>TypeError\<close> and not with an aggregate.
\<close>

theorem failures_miscounted:
  "map_option (map inv_handler \<circ> trace \<circ> fst)
     (emit failing_subscriber ''e'' [] (snd (on ''e'' 0 0 new_EventBus)) ()) = Some [0, 0]
   \<and> map_option snd (emit failing_subscriber ''e'' [] (snd (on ''e'' 0 0 new_EventBus)) ())
       = Some (AggregateError [JError ''x'', JError ''x''] ''2 handler(s) threw during \"e\"'')
   \<and> map_option (map inv_handler \<circ> trace \<circ> fst) (emit object_thrower ''ping'' [] ping_bus ()) = Some [0]
   \<and> map_option snd (emit object_thrower ''ping'' [] ping_bus ())
       = Some (Uncaught (JError ''Cannot convert object to primitive value''))"
  by (simp add: run_defs ping_bus_def failing_subscriber_def object_thrower_def bare_object_def)

subsection \<open>Claim C6\<close>



subsection \<open>Claim C7\<close>

text \<open>
  Claim C7, as amended. For \<^verbatim>\<open>waitFor(e, T)\<close> with \<open>e\<close> other than \<^verbatim>\<open>'*'\<close>, on a bus whose
  handlers do not register on \<open>e\<close> or on the wildcard name while they run and throw no
  value that the \<^verbatim>\<open>catch\<close> block cannot convert. Until \<open>T\<close> milliseconds have passed the timer
  is pending and the bus is as \<^verbatim>\<open>waitFor\<close> left it, with the handler subscribed to \<open>e\<close>. An
  emission of \<open>e\<close> made while the timer is pending and the handler still subscribed, and
  whose handlers settle at once, fulfils the promise with exactly its arguments (the
  empty list when there are none) and clears the timer, so that no lapse of time changes
  anything afterwards; when its handlers take time, it still settles the promise: either
  as before, or the timer fires before the handler's turn and the promise is rejected as
  follows. Once \<open>T\<close> milliseconds have passed with no such emission, the
  callback removes the subscription (removing it again changes nothing) and rejects the
  promise with the message \<^verbatim>\<open>waitFor("e") timed out after Tms\<close>, and a later emission,
  however long it lasts, leaves it rejected. Either way the promise is settled once.
\<close>

theorem waitFor_settles_once:
  assumes "wf b" and "e \<noteq> ''*''" and "never_registers sem e" and "never_registers sem ''*''"
    and "convertible sem"
  shows "(\<forall>dt<millis T. elapse e T h dt (waitFor e T h b)
                          = (fst (waitFor e T h b), \<lparr>result = Pending, timer = Some (millis T - dt)\<rparr>))
       \<and> wf (fst (waitFor e T h b))
       \<and> h \<in> handler ` set (subs_of (fst (waitFor e T h b)) e)
       \<and> (\<forall>b1 left. wf b1 \<and> h \<in> handler ` set (subs_of b1 e) \<longrightarrow>
            (\<exists>r out. emit (with_waiter e T h prompt sem) e args b1 (\<lparr>result = Pending, timer = Some left\<rparr>, w) = Some (r, out)
               \<and> result (fst (world r)) = Fulfilled args
               \<and> timer (fst (world r)) = None
               \<and> (\<forall>dt. elapse e T h dt (bus r, fst (world r)) = (bus r, fst (world r)))
               \<and> (\<forall>args' lapse. \<exists>r' out'.
                      emit (with_waiter e T h lapse sem) e args' (bus r) (world r) = Some (r', out')
                      \<and> fst (world r') = fst (world r))))
       \<and> (\<forall>b1 left lapse. wf b1 \<and> h \<in> handler ` set (subs_of b1 e) \<longrightarrow>
            (\<exists>r out. emit (with_waiter e T h lapse sem) e args b1 (\<lparr>result = Pending, timer = Some left\<rparr>, w) = Some (r, out)
               \<and> (fst (world r) = \<lparr>result = Fulfilled args, timer = None\<rparr>
                  \<or> fst (world r) =
                       \<lparr>result = Failed (JError (''waitFor('' @ [CHR 0x22] @ e @ [CHR 0x22] @ '') timed out after ''
                                                  @ printed T @ ''ms'')),
                        timer = None\<rparr>)))
       \<and> (\<forall>dt\<ge>millis T. elapse e T h dt (waitFor e T h b)
              = (off e h (fst (waitFor e T h b)),
                 \<lparr>result = Failed (JError (''waitFor('' @ [CHR 0x22] @ e @ [CHR 0x22] @ '') timed out after ''
                                            @ printed T @ ''ms'')),
                  timer = None\<rparr>))
       \<and> h \<notin> handler ` set (subs_of (off e h (fst (waitFor e T h b))) e)
       \<and> (\<forall>e'. subs_of (off e h (off e h (fst (waitFor e T h b)))) e'
                 = subs_of (off e h (fst (waitFor e T h b))) e')
       \<and> (\<forall>m lapse. \<exists>r out. emit (with_waiter e T h lapse sem) e args (off e h (fst (waitFor e T h b)))
                            (\<lparr>result = Failed m, timer = None\<rparr>, w) = Some (r, out)
               \<and> fst (world r) = \<lparr>result = Failed m, timer = None\<rparr>)
       \<and> (\<forall>d1 d2 s. elapse e T h (d1 + d2) s = elapse e T h d2 (elapse e T h d1 s))"
proof -
  let ?b1 = "fst (waitFor e T h b)"
  note reg = waitFor_registers[OF assms(1), where e = e and t = T and h = h]
  have pending: "\<forall>dt<millis T. elapse e T h dt (waitFor e T h b)
                          = (?b1, \<lparr>result = Pending, timer = Some (millis T - dt)\<rparr>)"
    by (simp add: elapse_def tick_def waitFor_def)
  have resolves: "\<forall>b1 left. wf b1 \<and> h \<in> handler ` set (subs_of b1 e) \<longrightarrow>
            (\<exists>r out. emit (with_waiter e T h prompt sem) e args b1 (\<lparr>result = Pending, timer = Some left\<rparr>, w) = Some (r, out)
               \<and> result (fst (world r)) = Fulfilled args
               \<and> timer (fst (world r)) = None
               \<and> (\<forall>dt. elapse e T h dt (bus r, fst (world r)) = (bus r, fst (world r)))
               \<and> (\<forall>args' lapse. \<exists>r' out'.
                      emit (with_waiter e T h lapse sem) e args' (bus r) (world r) = Some (r', out')
                      \<and> fst (world r') = fst (world r)))"
  proof (intro allI impI)
    fix b1 and left :: nat
    assume h: "wf b1 \<and> h \<in> handler ` set (subs_of b1 e)"
    from emit_resolves_waiter[OF conjunct1[OF h] assms(2,3,4,5) conjunct2[OF h],
        where args = args and w = w and T = T and left = left]
    obtain r out where
      1: "emit (with_waiter e T h prompt sem) e args b1 (\<lparr>result = Pending, timer = Some left\<rparr>, w) = Some (r, out)" and
      2: "fst (world r) = \<lparr>result = Fulfilled args, timer = None\<rparr>" and
      3: "wf (bus r)"
      by blast
    have later: "\<forall>args' lapse. \<exists>r' out'.
                      emit (with_waiter e T h lapse sem) e args' (bus r) (world r) = Some (r', out')
                      \<and> fst (world r') = fst (world r)"
    proof (intro allI)
      fix args' and lapse :: "'a lapse"
      have "\<exists>r' out'. emit (with_waiter e T h lapse sem) e args' (bus r) (fst (world r), snd (world r)) = Some (r', out')
                      \<and> fst (world r') = fst (world r)"
        by (rule emit_keeps_settled[OF 3 assms(3,4)]) (simp_all add: 2)
      then show "\<exists>r' out'. emit (with_waiter e T h lapse sem) e args' (bus r) (world r) = Some (r', out')
                      \<and> fst (world r') = fst (world r)"
        by simp
    qed
    have quiet: "\<forall>dt. elapse e T h dt (bus r, fst (world r)) = (bus r, fst (world r))"
      by (simp add: 2 elapse_def tick_def)
    show "\<exists>r out. emit (with_waiter e T h prompt sem) e args b1 (\<lparr>result = Pending, timer = Some left\<rparr>, w) = Some (r, out)
               \<and> result (fst (world r)) = Fulfilled args
               \<and> timer (fst (world r)) = None
               \<and> (\<forall>dt. elapse e T h dt (bus r, fst (world r)) = (bus r, fst (world r)))
               \<and> (\<forall>args' lapse. \<exists>r' out'.
                      emit (with_waiter e T h lapse sem) e args' (bus r) (world r) = Some (r', out')
                      \<and> fst (world r') = fst (world r))"
      by (intro exI[of _ r] exI[of _ out] conjI 1 quiet later) (simp_all add: 2)
  qed
  have race: "\<forall>b1 left lapse. wf b1 \<and> h \<in> handler ` set (subs_of b1 e) \<longrightarrow>
            (\<exists>r out. emit (with_waiter e T h lapse sem) e args b1 (\<lparr>result = Pending, timer = Some left\<rparr>, w) = Some (r, out)
               \<and> (fst (world r) = \<lparr>result = Fulfilled args, timer = None\<rparr>
                  \<or> fst (world r) =
                       \<lparr>result = Failed (JError (''waitFor('' @ [CHR 0x22] @ e @ [CHR 0x22] @ '') timed out after ''
                                                  @ printed T @ ''ms'')),
                        timer = None\<rparr>))"
  proof (intro allI impI)
    fix b1 and left :: nat and lapse :: "'a lapse"
    assume h: "wf b1 \<and> h \<in> handler ` set (subs_of b1 e)"
    from emit_settles_waiter[OF conjunct1[OF h] assms(2,3,4,5) conjunct2[OF h],
        where args = args and w = w and T = T and left = left and lapse = lapse]
    show "\<exists>r out. emit (with_waiter e T h lapse sem) e args b1 (\<lparr>result = Pending, timer = Some left\<rparr>, w) = Some (r, out)
               \<and> (fst (world r) = \<lparr>result = Fulfilled args, timer = None\<rparr>
                  \<or> fst (world r) =
                       \<lparr>result = Failed (JError (''waitFor('' @ [CHR 0x22] @ e @ [CHR 0x22] @ '') timed out after ''
                                                  @ printed T @ ''ms'')),
                        timer = None\<rparr>)"
      by (simp add: timeout_message_def)
  qed
  have fires: "\<forall>dt\<ge>millis T. elapse e T h dt (waitFor e T h b)
              = (off e h ?b1,
                 \<lparr>result = Failed (JError (''waitFor('' @ [CHR 0x22] @ e @ [CHR 0x22] @ '') timed out after ''
                                            @ printed T @ ''ms'')),
                  timer = None\<rparr>)"
    by (simp add: elapse_def tick_def timer_fires_def waitFor_def reject_def timeout_message_def)
  have gone: "h \<notin> handler ` set (subs_of (off e h ?b1) e)"
    by (auto simp: subs_of_off[OF reg(1)])
  have idem: "\<forall>e'. subs_of (off e h (off e h ?b1)) e' = subs_of (off e h ?b1) e'"
    by (simp add: subs_of_off[OF reg(1)] subs_of_off[OF wf_off[OF reg(1)]])
  have stays: "\<forall>m lapse. \<exists>r out. emit (with_waiter e T h lapse sem) e args (off e h ?b1)
                            (\<lparr>result = Failed m, timer = None\<rparr>, w) = Some (r, out)
               \<and> fst (world r) = \<lparr>result = Failed m, timer = None\<rparr>"
  proof (intro allI)
    fix m and lapse :: "'a lapse"
    show "\<exists>r out. emit (with_waiter e T h lapse sem) e args (off e h ?b1)
                            (\<lparr>result = Failed m, timer = None\<rparr>, w) = Some (r, out)
               \<and> fst (world r) = \<lparr>result = Failed m, timer = None\<rparr>"
      by (rule emit_keeps_settled[OF wf_off[OF reg(1)] assms(3,4)]) simp_all
  qed
  have clock: "\<forall>d1 d2 s. elapse e T h (d1 + d2) s = elapse e T h d2 (elapse e T h d1 s)"
    by (simp add: elapse_add)
  show ?thesis
    by (intro conjI pending reg(1) reg(2) resolves race fires gone idem stays clock)
qed

theorem waitFor_settles_once_witness:
  "wf ping_bus \<and> ''ping'' \<noteq> ''*'' \<and> never_registers ping_sem ''ping'' \<and> never_registers ping_sem ''*''
   \<and> convertible ping_sem
   \<and> (400::nat) < millis one_second
   \<and> elapse ''ping'' one_second 9 400 (waitFor ''ping'' one_second 9 ping_bus)
        = (fst (waitFor ''ping'' one_second 9 ping_bus), \<lparr>result = Pending, timer = Some 600\<rparr>)
   \<and> wf (fst (waitFor ''ping'' one_second 9 ping_bus))
   \<and> 9 \<in> handler ` set (subs_of (fst (waitFor ''ping'' one_second 9 ping_bus)) ''ping'')
   \<and> (\<exists>r out. emit (with_waiter ''ping'' one_second 9 prompt ping_sem) ''ping'' [JStr ''data1'', JStr ''data2'']
                   (fst (waitFor ''ping'' one_second 9 ping_bus)) (\<lparr>result = Pending, timer = Some 600\<rparr>, ()) = Some (r, out)
            \<and> result (fst (world r)) = Fulfilled [JStr ''data1'', JStr ''data2'']
            \<and> timer (fst (world r)) = None
            \<and> elapse ''ping'' one_second 9 5000 (bus r, fst (world r)) = (bus r, fst (world r))
            \<and> (\<exists>r' out'. emit (with_waiter ''ping'' one_second 9 slow_first ping_sem) ''ping'' [JStr ''later'']
                               (bus r) (world r) = Some (r', out')
                  \<and> result (fst (world r')) = Fulfilled [JStr ''data1'', JStr ''data2'']))
   \<and> (\<exists>r out. emit (with_waiter ''ping'' one_second 9 slow_first ping_sem) ''ping'' [JStr ''data1'', JStr ''data2'']
                   (fst (waitFor ''ping'' one_second 9 ping_bus)) (\<lparr>result = Pending, timer = Some 1000\<rparr>, ()) = Some (r, out)
            \<and> fst (world r) = \<lparr>result = Failed (JError ''waitFor(\"ping\") timed out after 1000ms''), timer = None\<rparr>)
   \<and> millis one_second \<le> (1000::nat)
   \<and> elapse ''ping'' one_second 9 1000 (waitFor ''ping'' one_second 9 ping_bus)
        = (off ''ping'' 9 (fst (waitFor ''ping'' one_second 9 ping_bus)),
           \<lparr>result = Failed (JError ''waitFor(\"ping\") timed out after 1000ms''), timer = None\<rparr>)
   \<and> 9 \<notin> handler ` set (subs_of (off ''ping'' 9 (fst (waitFor ''ping'' one_second 9 ping_bus))) ''ping'')
   \<and> subs_of (off ''ping'' 9 (off ''ping'' 9 (fst (waitFor ''ping'' one_second 9 ping_bus)))) ''ping''
        = subs_of (off ''ping'' 9 (fst (waitFor ''ping'' one_second 9 ping_bus))) ''ping''
   \<and> (\<exists>r out. emit (with_waiter ''ping'' one_second 9 slow_first ping_sem) ''ping'' [JStr ''data1'', JStr ''data2'']
                   (off ''ping'' 9 (fst (waitFor ''ping'' one_second 9 ping_bus)))
                   (\<lparr>result = Failed (JError ''waitFor(\"ping\") timed out after 1000ms''), timer = None\<rparr>, ()) = Some (r, out)
            \<and> fst (world r) = \<lparr>result = Failed (JError ''waitFor(\"ping\") timed out after 1000ms''), timer = None\<rparr>)
   \<and> elapse ''ping'' one_second 9 (400 + 600) (waitFor ''ping'' one_second 9 ping_bus)
        = elapse ''ping'' one_second 9 600 (elapse ''ping'' one_second 9 400 (waitFor ''ping'' one_second 9 ping_bus))"
proof -
  have ne: "''ping'' \<noteq> ''*''" by simp
  have m: "millis one_second = 1000" "printed one_second = ''1000''"
    by (simp_all add: one_second_def)
  have msg: "''waitFor('' @ [CHR 0x22] @ ''ping'' @ [CHR 0x22] @ '') timed out after '' @ ''1000'' @ ''ms''
               = ''waitFor(\"ping\") timed out after 1000ms''"
    by simp
  note inst = waitFor_settles_once[OF ping_hyps(1) ne ping_hyps(2,3,4), where h = 9
      and args = "[JStr ''data1'', JStr ''data2'']" and T = one_second and w = "()", unfolded m msg]
  have 1: "elapse ''ping'' one_second 9 400 (waitFor ''ping'' one_second 9 ping_bus)
        = (fst (waitFor ''ping'' one_second 9 ping_bus), \<lparr>result = Pending, timer = Some 600\<rparr>)"
    using inst[THEN conjunct1, rule_format, of 400] by simp
  note rest = inst[THEN conjunct2]
  have 2: "wf (fst (waitFor ''ping'' one_second 9 ping_bus))"
    and 3: "9 \<in> handler ` set (subs_of (fst (waitFor ''ping'' one_second 9 ping_bus)) ''ping'')"
    using rest by blast+
  note rest2 = rest[THEN conjunct2, THEN conjunct2]
  have 4: "\<exists>r out. emit (with_waiter ''ping'' one_second 9 prompt ping_sem) ''ping'' [JStr ''data1'', JStr ''data2'']
                   (fst (waitFor ''ping'' one_second 9 ping_bus)) (\<lparr>result = Pending, timer = Some 600\<rparr>, ()) = Some (r, out)
            \<and> result (fst (world r)) = Fulfilled [JStr ''data1'', JStr ''data2'']
            \<and> timer (fst (world r)) = None
            \<and> (\<forall>dt. elapse ''ping'' one_second 9 dt (bus r, fst (world r)) = (bus r, fst (world r)))
            \<and> (\<forall>args' lapse. \<exists>r' out'.
                      emit (with_waiter ''ping'' one_second 9 lapse ping_sem) ''ping'' args' (bus r) (world r) = Some (r', out')
                      \<and> fst (world r') = fst (world r))"
    using rest2[THEN conjunct1, rule_format, of "fst (waitFor ''ping'' one_second 9 ping_bus)" 600] 2 3 by simp
  then obtain r out where
    r: "emit (with_waiter ''ping'' one_second 9 prompt ping_sem) ''ping'' [JStr ''data1'', JStr ''data2'']
                   (fst (waitFor ''ping'' one_second 9 ping_bus)) (\<lparr>result = Pending, timer = Some 600\<rparr>, ()) = Some (r, out)"
       "result (fst (world r)) = Fulfilled [JStr ''data1'', JStr ''data2'']"
       "timer (fst (world r)) = None"
       "elapse ''ping'' one_second 9 5000 (bus r, fst (world r)) = (bus r, fst (world r))"
       "\<forall>args' lapse. \<exists>r' out'.
                      emit (with_waiter ''ping'' one_second 9 lapse ping_sem) ''ping'' args' (bus r) (world r) = Some (r', out')
                      \<and> fst (world r') = fst (world r)"
    by blast
  from r(5)[rule_format, where args' = "[JStr ''later'']" and lapse = slow_first] r(2)
  have later: "\<exists>r' out'. emit (with_waiter ''ping'' one_second 9 slow_first ping_sem) ''ping'' [JStr ''later'']
                               (bus r) (world r) = Some (r', out')
                  \<and> result (fst (world r')) = Fulfilled [JStr ''data1'', JStr ''data2'']"
    by auto
  have 4: "\<exists>r out. emit (with_waiter ''ping'' one_second 9 prompt ping_sem) ''ping'' [JStr ''data1'', JStr ''data2'']
                   (fst (waitFor ''ping'' one_second 9 ping_bus)) (\<lparr>result = Pending, timer = Some 600\<rparr>, ()) = Some (r, out)
            \<and> result (fst (world r)) = Fulfilled [JStr ''data1'', JStr ''data2'']
            \<and> timer (fst (world r)) = None
            \<and> elapse ''ping'' one_second 9 5000 (bus r, fst (world r)) = (bus r, fst (world r))
            \<and> (\<exists>r' out'. emit (with_waiter ''ping'' one_second 9 slow_first ping_sem) ''ping'' [JStr ''later'']
                               (bus r) (world r) = Some (r', out')
                  \<and> result (fst (world r')) = Fulfilled [JStr ''data1'', JStr ''data2''])"
    by (intro exI[of _ r] exI[of _ out] conjI r(1-4) later)
  have "\<exists>r out. emit (with_waiter ''ping'' one_second 9 slow_first ping_sem) ''ping'' [JStr ''data1'', JStr ''data2'']
                   (fst (waitFor ''ping'' one_second 9 ping_bus)) (\<lparr>result = Pending, timer = Some 1000\<rparr>, ()) = Some (r, out)
            \<and> (fst (world r) = \<lparr>result = Fulfilled [JStr ''data1'', JStr ''data2''], timer = None\<rparr>
               \<or> fst (world r) = \<lparr>result = Failed (JError ''waitFor(\"ping\") timed out after 1000ms''), timer = None\<rparr>)"
    using rest2[THEN conjunct2, THEN conjunct1, rule_format,
        where ?b1.0 = "fst (waitFor ''ping'' one_second 9 ping_bus)" and left = 1000 and lapse = slow_first] 2 3
    by simp
  then obtain r2 out2 where
    r2: "emit (with_waiter ''ping'' one_second 9 slow_first ping_sem) ''ping'' [JStr ''data1'', JStr ''data2'']
                   (fst (waitFor ''ping'' one_second 9 ping_bus)) (\<lparr>result = Pending, timer = Some 1000\<rparr>, ()) = Some (r2, out2)"
    by blast
  have "map_option (fst \<circ> world \<circ> fst)
          (emit (with_waiter ''ping'' one_second 9 slow_first ping_sem) ''ping'' [JStr ''data1'', JStr ''data2'']
                   (fst (waitFor ''ping'' one_second 9 ping_bus)) (\<lparr>result = Pending, timer = Some 1000\<rparr>, ()))
        = Some \<lparr>result = Failed (JError ''waitFor(\"ping\") timed out after 1000ms''), timer = None\<rparr>"
    by (simp add: run_defs waitFor_def with_waiter_def waitFor_handler_def resolve_def reject_def
          tick_def timer_fires_def timeout_message_def slow_first_def ping_sem_def ping_bus_def one_second_def)
  with r2 have "fst (world r2) = \<lparr>result = Failed (JError ''waitFor(\"ping\") timed out after 1000ms''), timer = None\<rparr>"
    by simp
  with r2 have slow: "\<exists>r out. emit (with_waiter ''ping'' one_second 9 slow_first ping_sem) ''ping'' [JStr ''data1'', JStr ''data2'']
                   (fst (waitFor ''ping'' one_second 9 ping_bus)) (\<lparr>result = Pending, timer = Some 1000\<rparr>, ()) = Some (r, out)
            \<and> fst (world r) = \<lparr>result = Failed (JError ''waitFor(\"ping\") timed out after 1000ms''), timer = None\<rparr>"
    by blast
  note rest3 = rest2[THEN conjunct2, THEN conjunct2]
  have 5: "elapse ''ping'' one_second 9 1000 (waitFor ''ping'' one_second 9 ping_bus)
        = (off ''ping'' 9 (fst (waitFor ''ping'' one_second 9 ping_bus)),
           \<lparr>result = Failed (JError ''waitFor(\"ping\") timed out after 1000ms''), timer = None\<rparr>)"
    using rest3[THEN conjunct1, rule_format, of 1000] by simp
  note rest4 = rest3[THEN conjunct2]
  have 6: "9 \<notin> handler ` set (subs_of (off ''ping'' 9 (fst (waitFor ''ping'' one_second 9 ping_bus))) ''ping'')"
    by (rule rest4[THEN conjunct1])
  have 7: "subs_of (off ''ping'' 9 (off ''ping'' 9 (fst (waitFor ''ping'' one_second 9 ping_bus)))) ''ping''
        = subs_of (off ''ping'' 9 (fst (waitFor ''ping'' one_second 9 ping_bus))) ''ping''"
    by (rule rest4[THEN conjunct2, THEN conjunct1, rule_format])
  have 8: "\<exists>r out. emit (with_waiter ''ping'' one_second 9 slow_first ping_sem) ''ping'' [JStr ''data1'', JStr ''data2'']
                   (off ''ping'' 9 (fst (waitFor ''ping'' one_second 9 ping_bus)))
                   (\<lparr>result = Failed (JError ''waitFor(\"ping\") timed out after 1000ms''), timer = None\<rparr>, ()) = Some (r, out)
            \<and> fst (world r) = \<lparr>result = Failed (JError ''waitFor(\"ping\") timed out after 1000ms''), timer = None\<rparr>"
    by (rule rest4[THEN conjunct2, THEN conjunct2, THEN conjunct1, rule_format, where lapse = slow_first])
  have 9: "elapse ''ping'' one_second 9 (400 + 600) (waitFor ''ping'' one_second 9 ping_bus)
        = elapse ''ping'' one_second 9 600 (elapse ''ping'' one_second 9 400 (waitFor ''ping'' one_second 9 ping_bus))"
    by (rule rest4[THEN conjunct2, THEN conjunct2, THEN conjunct2, rule_format])
  have lt: "(400::nat) < millis one_second" and le: "millis one_second \<le> (1000::nat)"
    by (simp_all add: m)
  show ?thesis
    by (intro conjI ping_hyps ne lt 1 2 3 4 slow le 5 6 7 8 9)
qed

text \<open>
  Claim C7 as stated fails for \<^verbatim>\<open>waitFor('*')\<close>: the handler is a wildcard subscriber and
  receives the event name first, so \<^verbatim>\<open>emit('*', 'a')\<close> fulfils the promise with
  \<^verbatim>\<open>['*', 'a']\<close>, not with the argument list \<^verbatim>\<open>['a']\<close> of the emission. It fails as well when
  the subscription is gone before the emission: after \<^verbatim>\<open>removeAllListeners("e")\<close> an
  emission of \<^verbatim>\<open>"e"\<close> made at once, long before the delay has passed, leaves the promise
  pending. It fails when the emission begins in time but a handler of higher priority
  settles only after the delay has passed: the timer fires meanwhile and the promise is
  rejected. And it fails when a handler of higher priority throws an object that
  \<^verbatim>\<open>String\<close> cannot convert: the emission ends before the handler of \<^verbatim>\<open>waitFor\<close> is
  reached, and the promise stays pending.
\<close>

theorem waitFor_counterexample:
  "map_option (result \<circ> fst \<circ> world \<circ> fst)
     (emit (with_waiter ''*'' one_second 0 prompt silent) ''*'' [JStr ''a'']
        (fst (waitFor ''*'' one_second 0 new_EventBus)) (snd (waitFor ''*'' one_second 0 new_EventBus), ()))
   = Some (Fulfilled [JStr ''*'', JStr ''a''])
   \<and> map_option (result \<circ> fst \<circ> world \<circ> fst)
     (emit (with_waiter ''e'' one_second 0 prompt silent) ''e'' [JStr ''a'']
        (removeAllListeners (Some ''e'') (fst (waitFor ''e'' one_second 0 new_EventBus)))
        (snd (waitFor ''e'' one_second 0 new_EventBus), ()))
   = Some Pending
   \<and> map_option (result \<circ> fst \<circ> world \<circ> fst)
     (emit (with_waiter ''ping'' one_second 9 slow_first silent) ''ping'' [JStr ''a'']
        (fst (waitFor ''ping'' one_second 9 ping_bus)) (snd (waitFor ''ping'' one_second 9 ping_bus), ()))
   = Some (Failed (JError ''waitFor(\"ping\") timed out after 1000ms''))
   \<and> map_option (result \<circ> fst \<circ> world \<circ> fst)
     (emit (with_waiter ''ping'' one_second 9 prompt object_thrower) ''ping'' [JStr ''a'']
        (fst (waitFor ''ping'' one_second 9 ping_bus)) (snd (waitFor ''ping'' one_second 9 ping_bus), ()))
   = Some Pending
   \<and> map handler (subs_of (fst (waitFor ''ping'' one_second 9 ping_bus)) ''ping'') = [0, 1, 9]"
  by (simp add: run_defs waitFor_def with_waiter_def waitFor_handler_def resolve_def reject_def silent_def
        tick_def timer_fires_def timeout_message_def prompt_def slow_first_def
        object_thrower_def bare_object_def ping_bus_def one_second_def)

subsection \<open>Claim C8\<close>

text \<open>
  Claim C8, as amended. When \<open>h\<close> has no subscription on \<open>e\<close> yet, registering it (by
  \<^verbatim>\<open>on\<close> or \<^verbatim>\<open>once\<close>) and then unregistering it (by \<^verbatim>\<open>off\<close>, or by the closure that the
  registration returned) brings \<^verbatim>\<open>listenerCount(e)\<close> back to what it was.
\<close>

theorem register_unregister_restores_count:
  assumes "wf b" and "h \<notin> handler ` set (subs_of b e)"
  shows "listenerCount e (off e h (snd (on e h p b))) = listenerCount e b
       \<and> listenerCount e (off e h (snd (once e h p b))) = listenerCount e b
       \<and> listenerCount e (exec_call (fst (on e h p b)) (snd (on e h p b))) = listenerCount e b
       \<and> listenerCount e (exec_call (fst (once e h p b)) (snd (once e h p b))) = listenerCount e b"
proof -
  have keep: "filter (\<lambda>s. handler s \<noteq> h) (subs_of b e) = subs_of b e"
    using assms(2) by (auto simp: filter_id_conv)
  have 1: "listenerCount e (off e h (snd (on e h p b))) = listenerCount e b"
    using assms(1) keep
    by (simp add: listenerCount_subs_of subs_of_off subs_of_on wf_on filter_sort)
  have 2: "listenerCount e (off e h (snd (once e h p b))) = listenerCount e b"
    using assms(1) keep
    by (simp add: listenerCount_subs_of subs_of_off subs_of_once wf_once filter_sort)
  have 3: "fst (on e h p b) = Off e h" "fst (once e h p b) = Off e h"
    by (simp_all add: on_def once_def Let_def)
  show ?thesis using 1 2 by (simp add: 3)
qed

theorem register_unregister_restores_count_witness:
  "wf ping_bus \<and> 7 \<notin> handler ` set (subs_of ping_bus ''ping'')
   \<and> listenerCount ''ping'' ping_bus = 2
   \<and> listenerCount ''ping'' (off ''ping'' 7 (snd (on ''ping'' 7 5 ping_bus))) = listenerCount ''ping'' ping_bus
   \<and> listenerCount ''ping'' (off ''ping'' 7 (snd (once ''ping'' 7 5 ping_bus))) = listenerCount ''ping'' ping_bus
   \<and> listenerCount ''ping'' (exec_call (fst (on ''ping'' 7 5 ping_bus)) (snd (on ''ping'' 7 5 ping_bus))) = listenerCount ''ping'' ping_bus
   \<and> listenerCount ''ping'' (exec_call (fst (once ''ping'' 7 5 ping_bus)) (snd (once ''ping'' 7 5 ping_bus))) = listenerCount ''ping'' ping_bus"
proof -
  have h: "7 \<notin> handler ` set (subs_of ping_bus ''ping'')" "listenerCount ''ping'' ping_bus = 2"
    by (simp_all add: run_defs ping_bus_def)
  from register_unregister_restores_count[OF ping_hyps(1) h(1), of 5] h ping_hyps(1)
  show ?thesis by simp
qed

text \<open>
  Claim C8 as stated fails when \<open>h\<close> is registered on \<open>e\<close> already: \<^verbatim>\<open>off\<close> removes every
  subscription of the handler, so the count falls from 1 to 0, not back to 1.
\<close>

theorem register_unregister_counterexample:
  "listenerCount ''e'' (off ''e'' 0 (snd (on ''e'' 0 0 (snd (on ''e'' 0 0 new_EventBus)))))
     \<noteq> listenerCount ''e'' (snd (on ''e'' 0 0 new_EventBus))
   \<and> listenerCount ''e'' (snd (on ''e'' 0 0 new_EventBus)) = 1
   \<and> listenerCount ''e'' (off ''e'' 0 (snd (on ''e'' 0 0 (snd (on ''e'' 0 0 new_EventBus))))) = 0"
  by (simp add: run_defs)

subsection \<open>Claim C9\<close>

text \<open>
  Claim C9 does not hold of the code. The \<^verbatim>\<open>catch\<close> block keeps a thrown \<^verbatim>\<open>Error\<close> and wraps
  a thrown string, as the claim says, but the wrapping \<^verbatim>\<open>new Error(String(err))\<close> is itself
  unguarded: for a thrown object that \<^verbatim>\<open>String\<close> cannot convert, such as
  \<^verbatim>\<open>Object.create(null)\<close>, it throws. On the bus of the scenario with handler 0 throwing
  that object, nothing is recorded for the failure, and \<^verbatim>\<open>emit\<close> rejects with the
  \<^verbatim>\<open>TypeError\<close> of the conversion; with handler 0 throwing the string \<^verbatim>\<open>"x"\<close> instead, the
  recorded value is the \<^verbatim>\<open>Error\<close> with message \<^verbatim>\<open>x\<close>.
\<close>

theorem thrown_object_not_recorded:
  "map_option (trace \<circ> fst) (emit object_thrower ''ping'' [] ping_bus ())
     = Some [Invoked Specific 0 [] (Some bare_object)]
   \<and> map_option (errors \<circ> fst) (emit object_thrower ''ping'' [] ping_bus ()) = Some []
   \<and> map_option snd (emit object_thrower ''ping'' [] ping_bus ())
       = Some (Uncaught (JError ''Cannot convert object to primitive value''))
   \<and> map_option (errors \<circ> fst) (emit ping_sem ''ping'' [] ping_bus ()) = Some [JError ''x'']"
  by (simp add: run_defs ping_bus_def object_thrower_def ping_sem_def bare_object_def)

subsection \<open>Claim C10\<close>

text \<open>
  Claim C10 does not hold of the code: an emission of \<^verbatim>\<open>'*'\<close> need not invoke each wildcard
  subscriber exactly once. Registration under \<^verbatim>\<open>'*'\<close> pushes onto the wildcard array and
  sorts it in place while the loop of \<^verbatim>\<open>emit\<close> walks it. With handler 0 alone on \<^verbatim>\<open>'*'\<close>,
  registering handler 1 there at a higher priority the first time it runs, the emission
  invokes handler 0 twice, each time with \<^verbatim>\<open>'*'\<close> in front of the arguments, and handler 1
  not at all, although both are wildcard subscribers when it ends. (The name \<^verbatim>\<open>'*'\<close> has no
  entry in the map, and \<^verbatim>\<open>listenerCount('*')\<close> is the length of the wildcard array.)
\<close>

theorem wildcard_handler_invoked_twice:
  "map_option (trace \<circ> fst)
     (emit wildcard_subscriber ''*'' [JStr ''a''] (snd (on ''*'' 0 0 new_EventBus)) ())
     = Some [Invoked Wildcard 0 [JStr ''*'', JStr ''a''] None, Invoked Wildcard 0 [JStr ''*'', JStr ''a''] None]
   \<and> map_option ((\<lambda>b. map handler (subs_of b ''*'')) \<circ> bus \<circ> fst)
     (emit wildcard_subscriber ''*'' [JStr ''a''] (snd (on ''*'' 0 0 new_EventBus)) ()) = Some [1, 0]
   \<and> listeners (snd (on ''*'' 0 0 new_EventBus)) ''*'' = None
   \<and> listenerCount ''*'' (snd (on ''*'' 0 0 new_EventBus)) = 1"
  by (simp add: run_defs wildcard_subscriber_def)


end
